theory Spec2Isabelle
  imports Main
begin

section \<open>Values\<close>

text \<open>
  The library is generic in the scrutinee's C++ type. The embedding is untyped: one
  datatype of values stands for the scrutinee types the matcher distinguishes.
  \<^item> \<open>VInt\<close>: a scalar (\<open>std::is_scalar\<close>);
  \<^item> \<open>VTuple\<close>: \<open>std::tuple\<close> / \<open>std::pair\<close> (tuple-like, not an array, not a range);
  \<^item> \<open>VArray\<close>: \<open>std::array\<close> (tuple-like and \<open>IsArray\<close>);
  \<^item> \<open>VRange\<close>: \<open>std::vector\<close>, a container with \<open>begin()\<close>, \<open>end()\<close> and
    \<open>size()\<close> that is not tuple-like;
  \<^item> \<open>VSub src b e\<close>: a \<open>Subrange\<close>, the pair of iterators at positions \<open>b\<close>
    (\<open>mBegin\<close>) and \<open>e\<close> (\<open>mEnd\<close>) of the source sequence \<open>src\<close>.
\<close>

datatype val =
    VInt int
  | VTuple "val list"
  | VArray "val list"
  | VRange "val list"
  | VSub "val list" nat nat

fun is_scalar :: "val \<Rightarrow> bool" where
  "is_scalar (VInt _) = True"
| "is_scalar _ = False"

text \<open>\<open>Subrange::size()\<close>: \<open>std::distance(mBegin, mEnd)\<close>.\<close>

fun Subrange_size :: "nat \<Rightarrow> nat \<Rightarrow> int" where
  "Subrange_size b e = int e - int b"

text \<open>The elements a subrange runs over, from \<open>begin()\<close> up to \<open>end()\<close>.\<close>

definition Subrange_elems :: "val list \<Rightarrow> nat \<Rightarrow> nat \<Rightarrow> val list" where
  "Subrange_elems src b e = take (e - b) (drop b src)"

text \<open>
  The host language's \<open>operator==\<close>. On scalars it is equality; on tuples and
  containers it compares element by element; on two subranges it is the library's own
  overload: equal \<open>size()\<close> and \<open>std::equal\<close> over the elements. Values of different
  C++ types do not compare in the source (the program is rejected); they are unequal here.
\<close>

function val_eq :: "val \<Rightarrow> val \<Rightarrow> bool" where
  "val_eq (VInt a) w = (case w of VInt b \<Rightarrow> a = b | _ \<Rightarrow> False)"
| "val_eq (VTuple xs) w = (case w of VTuple ys \<Rightarrow> list_all2 val_eq xs ys | _ \<Rightarrow> False)"
| "val_eq (VArray xs) w = (case w of VArray ys \<Rightarrow> list_all2 val_eq xs ys | _ \<Rightarrow> False)"
| "val_eq (VRange xs) w = (case w of VRange ys \<Rightarrow> list_all2 val_eq xs ys | _ \<Rightarrow> False)"
| "val_eq (VSub src b e) w =
     (case w of
        VSub src' b' e' \<Rightarrow>
          Subrange_size b e = Subrange_size b' e' \<and>
          list_all2 val_eq (Subrange_elems src b e) (Subrange_elems src' b' e')
      | _ \<Rightarrow> False)"
  by pat_completeness auto

lemma size_Subrange_elems:
  "x \<in> set (Subrange_elems src b e) \<Longrightarrow> size x < Suc (size_list size src)"
proof -
  assume "x \<in> set (Subrange_elems src b e)"
  then have "x \<in> set src"
    unfolding Subrange_elems_def by (meson in_set_dropD in_set_takeD)
  then have "size x \<le> size_list size src"
    by (simp add: size_list_estimation')
  then show ?thesis by simp
qed

termination val_eq
proof (relation "measure (\<lambda>(v, w). size v)", goal_cases)
  case 1
  then show ?case by simp
next
  case (2 xs w ys x y)
  then show ?case by (simp add: size_list_estimation' less_Suc_eq_le)
next
  case (3 xs w ys x y)
  then show ?case by (simp add: size_list_estimation' less_Suc_eq_le)
next
  case (4 xs w ys x y)
  then show ?case by (simp add: size_list_estimation' less_Suc_eq_le)
next
  case (5 src b e w src' b' e' x y)
  then show ?case using size_Subrange_elems [of x src b e] by simp
qed

text \<open>
  What a move construction leaves in the object it moves from. A scalar and a
  \<open>Subrange\<close> (two iterators) are copied; a tuple and an array move element by
  element; a \<open>std::vector\<close> hands over its buffer and is left empty.
\<close>

fun moved_from :: "val \<Rightarrow> val" where
  "moved_from (VInt i) = VInt i"
| "moved_from (VTuple vs) = VTuple (map moved_from vs)"
| "moved_from (VArray vs) = VArray (map moved_from vs)"
| "moved_from (VRange xs) = VRange []"
| "moved_from (VSub src b e) = VSub src b e"

section \<open>Identifier cells\<close>

text \<open>
  \<open>ValueVariant<Type>\<close> is \<open>std::variant<std::monostate, Type, Type const *>\<close>: empty,
  an owned value, or a borrowed pointer. A pointer is modelled by the value it points to
  when the cell is bound. The library does not write through the pointer; the object
  changes only when a later sub-pattern moves from it, and a cell is still bound to it
  then only after a rollback that skipped the cell.
\<close>

datatype ValueVariant = Monostate | Owned val | Pointer val

text \<open>\<open>Id::Block\<close>: the value slot and the recorded depth, an \<open>int32_t\<close>.\<close>

record Block =
  mVariant :: ValueVariant
  mDepth :: int

text \<open>\<open>Block{}\<close>, the value-initialised block of a default-constructed \<open>Id\<close>.\<close>

definition Block_init :: Block where
  "Block_init = \<lparr>mVariant = Monostate, mDepth = 0\<rparr>"

text \<open>
  Values of \<open>int32_t\<close>. Signed overflow is undefined behaviour in C++; the operations
  below return \<open>None\<close> where the source's arithmetic would leave this range.
\<close>

definition int32 :: "int \<Rightarrow> bool" where
  "int32 i = (- 2147483648 \<le> i \<and> i \<le> 2147483647)"

datatype error = logic_error string

definition Block_hasValue :: "Block \<Rightarrow> bool" where
  "Block_hasValue b =
     (case mVariant b of Owned _ \<Rightarrow> True | Pointer _ \<Rightarrow> True | Monostate \<Rightarrow> False)"

definition Block_value :: "Block \<Rightarrow> error + val" where
  "Block_value b =
     (case mVariant b of
        Owned v \<Rightarrow> Inr v
      | Pointer p \<Rightarrow> Inr p
      | Monostate \<Rightarrow> Inl (logic_error ''invalid state!''))"

definition Block_mutableValue :: "Block \<Rightarrow> error + val" where
  "Block_mutableValue b =
     (case mVariant b of
        Owned v \<Rightarrow> Inr v
      | Pointer _ \<Rightarrow> Inl (logic_error ''Cannot get mutableValue for pointer type!'')
      | Monostate \<Rightarrow> Inl (logic_error ''Invalid state!''))"

text \<open>
  \<open>Block::reset\<close>: \<open>if (mDepth - depth >= 0) { mVariant = {}; mDepth = depth; }\<close>.
  The subtraction is on \<open>int32_t\<close>.
\<close>

definition Block_reset :: "Block \<Rightarrow> int \<Rightarrow> Block option" where
  "Block_reset b depth =
     (if \<not> int32 (mDepth b - depth) then None
      else if mDepth b - depth \<ge> 0
        then Some (b\<lparr>mVariant := Monostate, mDepth := depth\<rparr>)
        else Some b)"

text \<open>
  \<open>Block::confirm\<close>. The \<open>assert\<close> aborts the program when it fails: \<open>None\<close>.
\<close>

definition Block_confirm :: "Block \<Rightarrow> int \<Rightarrow> Block option" where
  "Block_confirm b depth =
     (if mDepth b > depth \<or> mDepth b = 0
      then (if depth = mDepth b - 1 \<or> depth = mDepth b \<or> mDepth b = 0
            then Some (b\<lparr>mDepth := depth\<rparr>)
            else None)
      else Some b)"

text \<open>
  An \<open>Id\<close> holds \<open>std::variant<Block, Block *>\<close>: its own block, or a pointer to
  the block of the \<open>Id\<close> it was copied from. Blocks live in a store, addressed by
  the location of the \<open>Id\<close> that owns them; an \<open>Id\<close> object itself never changes
  after construction, so it is a value: \<open>OwnBlock a\<close> is the \<open>Id\<close> at location \<open>a\<close>
  holding its block, \<open>PtrBlock a\<close> an \<open>Id\<close> holding a pointer to that block.
\<close>

type_synonym addr = nat

type_synonym store = "addr \<Rightarrow> Block"

datatype Id = OwnBlock addr | PtrBlock addr

text \<open>\<open>Id::block()\<close>: the block itself, or the block pointed to.\<close>

fun Id_block :: "Id \<Rightarrow> addr" where
  "Id_block (OwnBlock a) = a"
| "Id_block (PtrBlock p) = p"

text \<open>The copy constructor: \<open>Id(Id const &id) { mBlock = BlockVT{&id.block()}; }\<close>.\<close>

definition Id_copy :: "Id \<Rightarrow> Id" where
  "Id_copy x = PtrBlock (Id_block x)"

definition Id_hasValue :: "store \<Rightarrow> Id \<Rightarrow> bool" where
  "Id_hasValue s x = Block_hasValue (s (Id_block x))"

definition Id_value :: "store \<Rightarrow> Id \<Rightarrow> error + val" where
  "Id_value s x = Block_value (s (Id_block x))"

text \<open>\<open>Id::move()\<close>: \<open>std::move(block().mutableValue())\<close>.\<close>

definition Id_move :: "store \<Rightarrow> Id \<Rightarrow> error + val" where
  "Id_move s x = Block_mutableValue (s (Id_block x))"

definition Id_reset :: "store \<Rightarrow> Id \<Rightarrow> int \<Rightarrow> store option" where
  "Id_reset s x depth =
     (case Block_reset (s (Id_block x)) depth of
        None \<Rightarrow> None
      | Some b \<Rightarrow> Some (s(Id_block x := b)))"

definition Id_confirm :: "store \<Rightarrow> Id \<Rightarrow> int \<Rightarrow> store option" where
  "Id_confirm s x depth =
     (case Block_confirm (s (Id_block x)) depth of
        None \<Rightarrow> None
      | Some b \<Rightarrow> Some (s(Id_block x := b)))"

text \<open>
  \<open>IdUtil::bindValue\<close>, selected by \<open>StorePointer<Type, Value>\<close>. When \<open>Value\<close> is an
  lvalue reference the variant takes the address of the value, which stays as it is.
  Otherwise \<open>ValueVariant<Type>{std::forward<Value>(value)}\<close> move-constructs the owned
  value from \<open>value\<close>. The result is the variant and what is left in \<open>value\<close>.
\<close>

definition bindValue :: "val \<Rightarrow> bool \<Rightarrow> ValueVariant \<times> val" where
  "bindValue value storePointer =
     (if storePointer then (Pointer value, value) else (Owned value, moved_from value))"

text \<open>
  \<open>Id::matchValue\<close>. \<open>equal\<close> is \<open>IdTraits<Type>::equal\<close>, which a user may
  specialise; \<open>internalValue()\<close> cannot throw after \<open>hasValue()\<close>. The result is the
  outcome, what is left in the argument \<open>v\<close>, and the store.
\<close>

definition Id_matchValue ::
  "(val \<Rightarrow> val \<Rightarrow> bool) \<Rightarrow> store \<Rightarrow> Id \<Rightarrow> val \<Rightarrow> bool \<Rightarrow> (bool \<times> val \<times> store) option" where
  "Id_matchValue equal s x v storePointer =
     (if Id_hasValue s x
      then (case Id_value s x of
              Inr stored \<Rightarrow> Some (equal stored v, v, s)
            | Inl _ \<Rightarrow> None)
      else (case bindValue v storePointer of
              (variant, v') \<Rightarrow>
                Some (True, v', s(Id_block x := (s (Id_block x))\<lparr>mVariant := variant\<rparr>))))"

text \<open>The default \<open>IdTraits<Type>::equal\<close>: \<open>lhs == rhs\<close>.\<close>

definition IdTraits_equal :: "val \<Rightarrow> val \<Rightarrow> bool" where
  "IdTraits_equal lhs rhs = val_eq lhs rhs"

section \<open>Patterns\<close>

text \<open>
  One constructor per specialisation of \<open>PatternTraits\<close>. \<open>Lit\<close> is the primary
  template (a plain value used as a pattern). User callables are the functions they
  compute, and take their argument by reference: \<open>Meet\<close> holds the predicate; \<open>App\<close>
  holds the unary function and
  whether its result type is an lvalue reference; \<open>PostCheck\<close> holds the guard, a
  thunk that reads the user's identifier cells. \<open>Ident\<close> and \<open>OooBinder\<close> hold a
  copy of the user's \<open>Id\<close>.
\<close>

datatype pat =
    Lit val
  | Wildcard
  | Or "pat list"
  | Meet "val \<Rightarrow> bool"
  | App "val \<Rightarrow> val" bool pat
  | And "pat list"
  | Not pat
  | Ident Id
  | Ds "pat list"
  | Ooo
  | OooBinder Id
  | PostCheck pat "store \<Rightarrow> bool"

datatype IdProcess = kCANCEL | kCONFIRM

text \<open>\<open>PatternTraits<Id<Type>>::processIdImpl\<close>.\<close>

definition Id_processIdImpl :: "Id \<Rightarrow> int \<Rightarrow> IdProcess \<Rightarrow> store \<Rightarrow> store option" where
  "Id_processIdImpl idPat depth idProcess s =
     (case idProcess of
        kCANCEL \<Rightarrow> Id_reset s idPat depth
      | kCONFIRM \<Rightarrow> Id_confirm s idPat depth)"

text \<open>
  \<open>processId\<close>: \<open>PatternTraits<Pattern>::processIdImpl\<close>, which visits every
  identifier of the pattern at the same depth. \<open>OooBinder::binder()\<close> returns a copy
  of the held \<open>Id\<close>.
\<close>

fun processId :: "pat \<Rightarrow> int \<Rightarrow> IdProcess \<Rightarrow> store \<Rightarrow> store option"
  and processIds :: "pat list \<Rightarrow> int \<Rightarrow> IdProcess \<Rightarrow> store \<Rightarrow> store option" where
  "processId (Lit c) depth idProcess s = Some s"
| "processId Wildcard depth idProcess s = Some s"
| "processId (Or ps) depth idProcess s = processIds ps depth idProcess s"
| "processId (Meet f) depth idProcess s = Some s"
| "processId (App f r p) depth idProcess s = processId p depth idProcess s"
| "processId (And ps) depth idProcess s = processIds ps depth idProcess s"
| "processId (Not p) depth idProcess s = processId p depth idProcess s"
| "processId (Ident x) depth idProcess s = Id_processIdImpl x depth idProcess s"
| "processId (Ds ps) depth idProcess s = processIds ps depth idProcess s"
| "processId Ooo depth idProcess s = Some s"
| "processId (OooBinder x) depth idProcess s = Id_processIdImpl (Id_copy x) depth idProcess s"
| "processId (PostCheck p g) depth idProcess s = processId p depth idProcess s"
| "processIds [] depth idProcess s = Some s"
| "processIds (p # ps) depth idProcess s =
     (case processId p depth idProcess s of
        None \<Rightarrow> None
      | Some s' \<Rightarrow> processIds ps depth idProcess s')"

text \<open>
  \<open>nbIdV\<close>. \<open>PatternTraits<PostCheck>\<close> declares no \<open>nbIdV\<close>, so a use of it is
  rejected by the compiler: \<open>None\<close>. \<open>PatternTraits<OooBinder<T>>\<close> takes it from
  \<open>PatternTraits<T>\<close>, the primary template.
\<close>

fun nbIdV :: "pat \<Rightarrow> nat option"
  and NbIdInTuple :: "pat list \<Rightarrow> nat option" where
  "nbIdV (Lit c) = Some 0"
| "nbIdV Wildcard = Some 0"
| "nbIdV (Or ps) = NbIdInTuple ps"
| "nbIdV (Meet f) = Some 0"
| "nbIdV (App f r p) = nbIdV p"
| "nbIdV (And ps) = NbIdInTuple ps"
| "nbIdV (Not p) = nbIdV p"
| "nbIdV (Ident x) = Some 1"
| "nbIdV (Ds ps) = NbIdInTuple ps"
| "nbIdV Ooo = Some 0"
| "nbIdV (OooBinder x) = Some 0"
| "nbIdV (PostCheck p g) = None"
| "NbIdInTuple [] = Some 0"
| "NbIdInTuple (p # ps) =
     (case nbIdV p of
        None \<Rightarrow> None
      | Some a \<Rightarrow> (case NbIdInTuple ps of None \<Rightarrow> None | Some b \<Rightarrow> Some (a + b)))"

fun isOooBinderV :: "pat \<Rightarrow> bool" where
  "isOooBinderV (OooBinder x) = True"
| "isOooBinderV _ = False"

fun isOooOrBinderV :: "pat \<Rightarrow> bool" where
  "isOooOrBinderV Ooo = True"
| "isOooOrBinderV p = isOooBinderV p"

text \<open>\<open>nbOooOrBinderV\<close>: \<open>((isOooOrBinderV<Patterns> ? 1 : 0) + ... + 0)\<close>.\<close>

fun nbOooOrBinderV :: "pat list \<Rightarrow> nat" where
  "nbOooOrBinderV [] = 0"
| "nbOooOrBinderV (p # ps) = (if isOooOrBinderV p then 1 else 0) + nbOooOrBinderV ps"

text \<open>
  \<open>findOooIdxImpl\<close>: \<open>((isOooOrBinderV<get<I>> ? I : 0) + ...)\<close> over the index
  sequence; the first argument is the index of the head of the list.
\<close>

fun findOooIdxImpl :: "nat \<Rightarrow> pat list \<Rightarrow> nat" where
  "findOooIdxImpl I [] = 0"
| "findOooIdxImpl I (p # ps) = (if isOooOrBinderV p then I else 0) + findOooIdxImpl (Suc I) ps"

definition findOooIdx :: "pat list \<Rightarrow> nat" where
  "findOooIdx ps = findOooIdxImpl 0 ps"

text \<open>The identifier cells (block addresses) a pattern refers to.\<close>

fun pat_ids :: "pat \<Rightarrow> addr set"
  and pats_ids :: "pat list \<Rightarrow> addr set" where
  "pat_ids (Lit c) = {}"
| "pat_ids Wildcard = {}"
| "pat_ids (Or ps) = pats_ids ps"
| "pat_ids (Meet f) = {}"
| "pat_ids (App f r p) = pat_ids p"
| "pat_ids (And ps) = pats_ids ps"
| "pat_ids (Not p) = pat_ids p"
| "pat_ids (Ident x) = {Id_block x}"
| "pat_ids (Ds ps) = pats_ids ps"
| "pat_ids Ooo = {}"
| "pat_ids (OooBinder x) = {Id_block x}"
| "pat_ids (PostCheck p g) = pat_ids p"
| "pats_ids [] = {}"
| "pats_ids (p # ps) = pat_ids p \<union> pats_ids ps"

text \<open>A measure for the matcher's recursion: a binder is above the identifier it holds.\<close>

fun pat_measure :: "pat \<Rightarrow> nat"
  and pats_measure :: "pat list \<Rightarrow> nat" where
  "pat_measure (Lit c) = 0"
| "pat_measure Wildcard = 0"
| "pat_measure (Or ps) = Suc (pats_measure ps)"
| "pat_measure (Meet f) = 0"
| "pat_measure (App f r p) = Suc (pat_measure p)"
| "pat_measure (And ps) = Suc (pats_measure ps)"
| "pat_measure (Not p) = Suc (pat_measure p)"
| "pat_measure (Ident x) = 0"
| "pat_measure (Ds ps) = Suc (pats_measure ps)"
| "pat_measure Ooo = 0"
| "pat_measure (OooBinder x) = 1"
| "pat_measure (PostCheck p g) = Suc (pat_measure p)"
| "pats_measure [] = 0"
| "pats_measure (p # ps) = Suc (pat_measure p + pats_measure ps)"

lemma pat_measure_nth: "i < length ps \<Longrightarrow> pat_measure (ps ! i) < pats_measure ps"
proof (induction ps arbitrary: i)
  case Nil
  then show ?case by simp
next
  case (Cons p ps)
  show ?case
  proof (cases i)
    case 0
    then show ?thesis by simp
  next
    case (Suc j)
    with Cons show ?thesis by fastforce
  qed
qed

section \<open>The matcher\<close>

text \<open>
  The \<open>Context\<close> is an append-only buffer; a match runs on the identifier store and
  the context.
\<close>

type_synonym "context" = "val list"

type_synonym state = "store \<times> context"

type_synonym equalT = "val \<Rightarrow> val \<Rightarrow> bool"

text \<open>
  With exactly one splice among the sub-patterns, \<open>findOooIdx\<close> is its index.
\<close>

lemma findOooIdxImpl_none: "nbOooOrBinderV ps = 0 \<Longrightarrow> findOooIdxImpl I ps = 0"
  by (induction ps arbitrary: I) (auto split: if_splits)

lemma findOooIdxImpl_one:
  "nbOooOrBinderV ps = 1 \<Longrightarrow>
   \<exists>k < length ps. findOooIdxImpl I ps = I + k \<and> isOooOrBinderV (ps ! k)"
proof (induction ps arbitrary: I)
  case Nil
  then show ?case by simp
next
  case (Cons p ps)
  show ?case
  proof (cases "isOooOrBinderV p")
    case True
    with Cons.prems have "nbOooOrBinderV ps = 0" by simp
    then have "findOooIdxImpl (Suc I) ps = 0" by (rule findOooIdxImpl_none)
    with True show ?thesis by (intro exI [of _ 0]) simp
  next
    case False
    with Cons.prems have "nbOooOrBinderV ps = 1" by simp
    from Cons.IH [OF this, of "Suc I"] obtain k where
      "k < length ps" "findOooIdxImpl (Suc I) ps = Suc I + k" "isOooOrBinderV (ps ! k)"
      by blast
    with False show ?thesis by (intro exI [of _ "Suc k"]) simp
  qed
qed

lemma findOooIdx_less: "nbOooOrBinderV ps = 1 \<Longrightarrow> findOooIdx ps < length ps"
  using findOooIdxImpl_one [of ps 0] by (auto simp: findOooIdx_def)

lemma findOooIdx_isOoo: "nbOooOrBinderV ps = 1 \<Longrightarrow> isOooOrBinderV (ps ! findOooIdx ps)"
  using findOooIdxImpl_one [of ps 0] by (auto simp: findOooIdx_def)

text \<open>
  The matcher returns \<open>Some (result, value, state)\<close>: the outcome, what the match left
  in the value it ran on, and the state. It returns \<open>None\<close> when the source has no
  result: the instantiation is rejected by the compiler (a failing \<open>static_assert\<close>, a
  \<open>get<I>\<close> out of range, no overload of \<open>Ds\<close> for the value), the behaviour is
  undefined (an \<open>int32_t\<close> overflow of the depth, an iterator or an index past the
  end), or \<open>confirm\<close>'s \<open>assert\<close> aborts.

  Arguments: \<open>equal\<close> is \<open>IdTraits<Type>::equal\<close>; \<open>lv\<close> says whether
  \<open>Value\<close> is an lvalue reference. It decides \<open>StorePointer\<close>, and only a value that is
  not an lvalue is moved from.
  \<^item> \<open>matchPattern\<close>: \<open>matchPatternImpl\<close>, then \<open>processId\<close> at the same depth with
    \<open>kCONFIRM\<close> or \<open>kCANCEL\<close>.
  \<^item> \<open>Or_matchPatternImpl\<close>, \<open>And_matchPatternImpl\<close>: the folds \<open>(... || ...)\<close> and
    \<open>(... && ...)\<close> over \<open>take<patSize - 1>\<close>, which pass \<open>value\<close> as an lvalue, then
    the last pattern, which gets \<open>std::forward<Value>(value)\<close> (in \<open>And\<close> only when no
    pattern before it holds an identifier); with no pattern, \<open>patSize - 1\<close> is out of
    range for \<open>take\<close>.
  \<^item> \<open>App\<close>: the unary is called on \<open>value\<close> as an lvalue. A result that is a
    reference or a scalar is matched as it is; any other result is put into the context
    and matched as an rvalue, and the context keeps what the match leaves of it.
  \<^item> \<open>DsTuple_matchPatternImpl\<close>: the overload of \<open>PatternTraits<Ds>\<close> for tuple-like
    values (\<open>isArray\<close> for \<open>std::array\<close>); all its indices are template arguments,
    checked when the program is compiled. Without a splice, \<open>apply_\<close> hands the elements
    on as lvalues; with a splice, \<open>get<I>(std::forward<ValueTuple>(valueTuple))\<close> hands
    each element on as an lvalue or an rvalue, as the tuple is. The result holds the
    elements as the match left them.
  \<^item> \<open>DsRange_matchPatternImpl\<close>: the overload for ranges, given the sequence, the
    position of \<open>std::begin\<close> in it and \<open>size()\<close>. The elements
    \<open>*std::next(rangeBegin, I)\<close> are lvalues and stay as they are.
  \<^item> \<open>matchPatternMultipleImpl\<close>, \<open>matchPatternRangeImpl\<close>: the folds over the index
    sequence; \<open>I\<close> is the current index and the last numeric argument counts the
    indices left.
\<close>

function
  matchPattern :: "equalT \<Rightarrow> val \<Rightarrow> bool \<Rightarrow> pat \<Rightarrow> int \<Rightarrow> state \<Rightarrow> (bool \<times> val \<times> state) option" and
  matchPatternImpl :: "equalT \<Rightarrow> val \<Rightarrow> bool \<Rightarrow> pat \<Rightarrow> int \<Rightarrow> state \<Rightarrow> (bool \<times> val \<times> state) option" and
  Or_matchPatternImpl :: "equalT \<Rightarrow> val \<Rightarrow> bool \<Rightarrow> pat list \<Rightarrow> int \<Rightarrow> state \<Rightarrow> (bool \<times> val \<times> state) option" and
  And_matchPatternImpl :: "equalT \<Rightarrow> val \<Rightarrow> bool \<Rightarrow> pat list \<Rightarrow> int \<Rightarrow> state \<Rightarrow> (bool \<times> val \<times> state) option" and
  DsTuple_matchPatternImpl :: "equalT \<Rightarrow> val list \<Rightarrow> bool \<Rightarrow> bool \<Rightarrow> pat list \<Rightarrow> int \<Rightarrow> state \<Rightarrow> (bool \<times> val list \<times> state) option" and
  DsRange_matchPatternImpl :: "equalT \<Rightarrow> val list \<Rightarrow> nat \<Rightarrow> nat \<Rightarrow> pat list \<Rightarrow> int \<Rightarrow> state \<Rightarrow> (bool \<times> state) option" and
  matchPatternMultipleImpl :: "equalT \<Rightarrow> val list \<Rightarrow> bool \<Rightarrow> nat \<Rightarrow> nat \<Rightarrow> pat list \<Rightarrow> int \<Rightarrow> nat \<Rightarrow> nat \<Rightarrow> state \<Rightarrow> (bool \<times> val list \<times> state) option" and
  matchPatternRangeImpl :: "equalT \<Rightarrow> val list \<Rightarrow> nat \<Rightarrow> nat \<Rightarrow> pat list \<Rightarrow> int \<Rightarrow> nat \<Rightarrow> nat \<Rightarrow> state \<Rightarrow> (bool \<times> state) option"
where
  "matchPattern equal v lv p depth st =
     (if \<not> int32 depth then None
      else case matchPatternImpl equal v lv p depth st of
        None \<Rightarrow> None
      | Some (result, v', (s, ctx)) \<Rightarrow>
          (case processId p depth (if result then kCONFIRM else kCANCEL) s of
             None \<Rightarrow> None
           | Some s' \<Rightarrow> Some (result, v', (s', ctx))))"
| "matchPatternImpl equal v lv (Lit c) depth st = Some (val_eq c v, v, st)"
| "matchPatternImpl equal v lv Wildcard depth st = Some (True, v, st)"
| "matchPatternImpl equal v lv (Or ps) depth st = Or_matchPatternImpl equal v lv ps depth st"
| "matchPatternImpl equal v lv (Meet f) depth st = Some (f v, v, st)"
| "matchPatternImpl equal v lv (App f ref p) depth st =
     (if ref \<or> is_scalar (f v)
      then (case matchPattern equal (f v) ref p (depth + 1) st of
              None \<Rightarrow> None
            | Some (result, w, st') \<Rightarrow> Some (result, v, st'))
      else (case matchPattern equal (f v) False p (depth + 1) (fst st, snd st @ [f v]) of
              None \<Rightarrow> None
            | Some (result, w, (s', ctx')) \<Rightarrow>
                Some (result, v, (s', ctx'[length (snd st) := w]))))"
| "matchPatternImpl equal v lv (And ps) depth st =
     (case NbIdInTuple (butlast ps) of
        None \<Rightarrow> None
      | Some nbId \<Rightarrow> And_matchPatternImpl equal v (if nbId = 0 then lv else True) ps depth st)"
| "matchPatternImpl equal v lv (Not p) depth st =
     (case matchPattern equal v lv p (depth + 1) st of
        None \<Rightarrow> None
      | Some (result, v', st') \<Rightarrow> Some (\<not> result, v', st'))"
| "matchPatternImpl equal v lv (Ident x) depth st =
     (case Id_matchValue equal (fst st) x v lv of
        None \<Rightarrow> None
      | Some (result, v', s') \<Rightarrow> Some (result, v', (s', snd st)))"
| "matchPatternImpl equal v lv (Ds ps) depth st =
     (if \<not> (nbOooOrBinderV ps = 0 \<or> nbOooOrBinderV ps = 1) then None
      else case v of
        VTuple vs \<Rightarrow>
          (case DsTuple_matchPatternImpl equal vs False lv ps depth st of
             None \<Rightarrow> None
           | Some (result, vs', st') \<Rightarrow> Some (result, VTuple vs', st'))
      | VArray vs \<Rightarrow>
          (case DsTuple_matchPatternImpl equal vs True lv ps depth st of
             None \<Rightarrow> None
           | Some (result, vs', st') \<Rightarrow> Some (result, VArray vs', st'))
      | VRange xs \<Rightarrow>
          (case DsRange_matchPatternImpl equal xs 0 (length xs) ps depth st of
             None \<Rightarrow> None
           | Some (result, st') \<Rightarrow> Some (result, v, st'))
      | VSub src b e \<Rightarrow>
          (if b \<le> e \<and> e \<le> length src
           then (case DsRange_matchPatternImpl equal src b (e - b) ps depth st of
                   None \<Rightarrow> None
                 | Some (result, st') \<Rightarrow> Some (result, v, st'))
           else None)
      | VInt i \<Rightarrow> None)"
| "matchPatternImpl equal v lv Ooo depth st = Some (True, v, st)"
| "matchPatternImpl equal v lv (OooBinder x) depth st =
     matchPattern equal v lv (Ident (Id_copy x)) (depth + 1) st"
| "matchPatternImpl equal v lv (PostCheck p g) depth st =
     (case matchPattern equal v lv p (depth + 1) st of
        None \<Rightarrow> None
      | Some (result, v', st') \<Rightarrow> Some (result \<and> g (fst st'), v', st'))"
| "Or_matchPatternImpl equal v lv [] depth st = None"
| "Or_matchPatternImpl equal v lv [p] depth st = matchPattern equal v lv p (depth + 1) st"
| "Or_matchPatternImpl equal v lv (p # q # ps) depth st =
     (case matchPattern equal v True p (depth + 1) st of
        None \<Rightarrow> None
      | Some (result, v', st') \<Rightarrow>
          if result then Some (True, v', st')
          else Or_matchPatternImpl equal v' lv (q # ps) depth st')"
| "And_matchPatternImpl equal v lvLast [] depth st = None"
| "And_matchPatternImpl equal v lvLast [p] depth st = matchPattern equal v lvLast p (depth + 1) st"
| "And_matchPatternImpl equal v lvLast (p # q # ps) depth st =
     (case matchPattern equal v True p (depth + 1) st of
        None \<Rightarrow> None
      | Some (result, v', st') \<Rightarrow>
          if result then And_matchPatternImpl equal v' lvLast (q # ps) depth st'
          else Some (False, v', st'))"
| "DsTuple_matchPatternImpl equal vs isArray lv ps depth st =
     (if nbOooOrBinderV ps = 0
      then (if length ps \<noteq> length vs then None
            else matchPatternMultipleImpl equal vs True 0 0 ps depth 0 (length ps) st)
      else if nbOooOrBinderV ps \<noteq> 1 then None
      else
        let idxOoo = findOooIdx ps;
            isBinder = isOooBinderV (ps ! idxOoo);
            valLen = length vs;
            patLen = length ps
        in
          if isBinder \<and> \<not> isArray then None
          else if \<not> idxOoo \<le> valLen then None
          else if 0 < patLen - idxOoo - 1 \<and> valLen + idxOoo + 1 < patLen then None
          else
            case matchPatternMultipleImpl equal vs lv 0 0 ps depth 0 idxOoo st of
              None \<Rightarrow> None
            | Some (result, vs1, st1) \<Rightarrow>
                (case (if isArray \<and> isBinder
                       then
                         if \<not> idxOoo < valLen then None
                         else
                           let rangeSize = int valLen - (int patLen - 1);
                               sub = VSub vs1 idxOoo (nat (int idxOoo + rangeSize));
                               st2 = (fst st1, snd st1 @ [sub])
                           in if result
                              then (case matchPattern equal sub True (ps ! idxOoo) depth st2 of
                                      None \<Rightarrow> None
                                    | Some (result2, w, st3) \<Rightarrow> Some (result2, st3))
                              else Some (False, st2)
                       else Some (result, st1)) of
                   None \<Rightarrow> None
                 | Some (result', st3) \<Rightarrow>
                     if result'
                     then matchPatternMultipleImpl equal vs1 lv (valLen + idxOoo + 1 - patLen)
                            (idxOoo + 1) ps depth 0 (patLen - idxOoo - 1) st3
                     else Some (False, vs1, st3)))"
| "DsRange_matchPatternImpl equal src rangeBegin rangeSz ps depth st =
     (let nbPat = length ps in
      if nbOooOrBinderV ps = 0
      then (if rangeSz \<noteq> nbPat then Some (False, st)
            else matchPatternRangeImpl equal src rangeBegin 0 ps depth 0 nbPat st)
      else if nbOooOrBinderV ps \<noteq> 1 then None
      else
        if rangeSz < nbPat - 1 then Some (False, st)
        else
          let idxOoo = findOooIdx ps;
              isBinder = isOooBinderV (ps ! idxOoo)
          in
            case matchPatternRangeImpl equal src rangeBegin 0 ps depth 0 idxOoo st of
              None \<Rightarrow> None
            | Some (result, st1) \<Rightarrow>
                let valLen = rangeSz;
                    patLen = length ps;
                    beginOoo = rangeBegin + idxOoo
                in
                  (case (if isBinder
                         then
                           let rangeSize = valLen - (patLen - 1);
                               endOoo = beginOoo + rangeSize;
                               sub = VSub src beginOoo endOoo;
                               st2 = (fst st1, snd st1 @ [sub])
                           in if result
                              then (case matchPattern equal sub True (ps ! idxOoo) depth st2 of
                                      None \<Rightarrow> None
                                    | Some (result2, w, st3) \<Rightarrow> Some (result2, st3))
                              else Some (False, st2)
                         else Some (result, st1)) of
                     None \<Rightarrow> None
                   | Some (result', st3) \<Rightarrow>
                       let beginAfterOoo = beginOoo + (valLen + 1 - patLen) in
                       if result'
                       then matchPatternRangeImpl equal src beginAfterOoo (idxOoo + 1) ps depth 0
                              (patLen - idxOoo - 1) st3
                       else Some (False, st3)))"
| "matchPatternMultipleImpl equal vs lv valueStartIdx patternStartIdx ps depth I 0 st =
     Some (True, vs, st)"
| "matchPatternMultipleImpl equal vs lv valueStartIdx patternStartIdx ps depth I (Suc n) st =
     (if I + valueStartIdx < length vs \<and> I + patternStartIdx < length ps
      then
        case matchPattern equal (vs ! (I + valueStartIdx)) lv (ps ! (I + patternStartIdx))
               (depth + 1) st of
          None \<Rightarrow> None
        | Some (result, w, st') \<Rightarrow>
            if result
            then matchPatternMultipleImpl equal (vs[I + valueStartIdx := w]) lv valueStartIdx
                   patternStartIdx ps depth (Suc I) n st'
            else Some (False, vs[I + valueStartIdx := w], st')
      else None)"
| "matchPatternRangeImpl equal src rangeBegin patternStartIdx ps depth I 0 st =
     Some (True, st)"
| "matchPatternRangeImpl equal src rangeBegin patternStartIdx ps depth I (Suc n) st =
     (if rangeBegin + I < length src \<and> I + patternStartIdx < length ps
      then
        case matchPattern equal (src ! (rangeBegin + I)) True (ps ! (I + patternStartIdx))
               (depth + 1) st of
          None \<Rightarrow> None
        | Some (result, w, st') \<Rightarrow>
            if result
            then matchPatternRangeImpl equal src rangeBegin patternStartIdx ps depth (Suc I) n st'
            else Some (False, st')
      else None)"
  by pat_completeness auto

termination
  apply (relation "measures
    [\<lambda>x. case x of
        Inl (Inl (Inl (equal, v, lv, p, depth, st))) \<Rightarrow> pat_measure p
      | Inl (Inl (Inr (equal, v, lv, p, depth, st))) \<Rightarrow> pat_measure p
      | Inl (Inr (Inl (equal, v, lv, ps, depth, st))) \<Rightarrow> pats_measure ps
      | Inl (Inr (Inr (equal, v, lv, ps, depth, st))) \<Rightarrow> pats_measure ps
      | Inr (Inl (Inl (equal, vs, isArray, lv, ps, depth, st))) \<Rightarrow> pats_measure ps
      | Inr (Inl (Inr (equal, src, b, sz, ps, depth, st))) \<Rightarrow> pats_measure ps
      | Inr (Inr (Inl (equal, vs, lv, vi, pi, ps, depth, I, n, st))) \<Rightarrow> pats_measure ps
      | Inr (Inr (Inr (equal, src, b, pi, ps, depth, I, n, st))) \<Rightarrow> pats_measure ps,
     \<lambda>x. case x of
        Inl (Inl (Inl (equal, v, lv, p, depth, st))) \<Rightarrow> 1
      | Inl (Inl (Inr (equal, v, lv, p, depth, st))) \<Rightarrow> 0
      | Inl (Inr (Inl (equal, v, lv, ps, depth, st))) \<Rightarrow> 0
      | Inl (Inr (Inr (equal, v, lv, ps, depth, st))) \<Rightarrow> 0
      | Inr (Inl (Inl (equal, vs, isArray, lv, ps, depth, st))) \<Rightarrow> 1
      | Inr (Inl (Inr (equal, src, b, sz, ps, depth, st))) \<Rightarrow> 1
      | Inr (Inr (Inl (equal, vs, lv, vi, pi, ps, depth, I, n, st))) \<Rightarrow> 0
      | Inr (Inr (Inr (equal, src, b, pi, ps, depth, I, n, st))) \<Rightarrow> 0,
     \<lambda>x. case x of
        Inl (Inl (Inl (equal, v, lv, p, depth, st))) \<Rightarrow> 0
      | Inl (Inl (Inr (equal, v, lv, p, depth, st))) \<Rightarrow> 0
      | Inl (Inr (Inl (equal, v, lv, ps, depth, st))) \<Rightarrow> 0
      | Inl (Inr (Inr (equal, v, lv, ps, depth, st))) \<Rightarrow> 0
      | Inr (Inl (Inl (equal, vs, isArray, lv, ps, depth, st))) \<Rightarrow> 0
      | Inr (Inl (Inr (equal, src, b, sz, ps, depth, st))) \<Rightarrow> 0
      | Inr (Inr (Inl (equal, vs, lv, vi, pi, ps, depth, I, n, st))) \<Rightarrow> n
      | Inr (Inr (Inr (equal, src, b, pi, ps, depth, I, n, st))) \<Rightarrow> n]")
  apply (auto simp: pat_measure_nth findOooIdx_less)
  done

declare matchPattern.simps [simp del]
declare DsTuple_matchPatternImpl.simps [simp del]
declare DsRange_matchPatternImpl.simps [simp del]

section \<open>The clause driver\<close>

text \<open>
  A clause pairs a pattern with its handler. The handler is a user thunk: it reads the
  identifier cells, may act on the user's own state \<open>'w\<close>, and returns the clause's
  value.
\<close>

record ('w, 'r) PatternPair =
  mPattern :: pat
  mHandler :: "store \<Rightarrow> 'w \<Rightarrow> 'r \<times> 'w"

text \<open>\<open>PatternPair::matchValue\<close>: the matcher at depth 0.\<close>

definition PatternPair_matchValue ::
  "equalT \<Rightarrow> ('w, 'r) PatternPair \<Rightarrow> val \<Rightarrow> bool \<Rightarrow> state \<Rightarrow> (bool \<times> val \<times> state) option" where
  "PatternPair_matchValue equal pp v lv st = matchPattern equal v lv (mPattern pp) 0 st"

definition PatternPair_execute :: "('w, 'r) PatternPair \<Rightarrow> store \<Rightarrow> 'w \<Rightarrow> 'r \<times> 'w" where
  "PatternPair_execute pp s w = mHandler pp s w"

text \<open>
  \<open>processId\<close> called on a \<open>PatternPair\<close>, as \<open>matchPatterns\<close> does after the handler
  ran. No specialisation of \<open>PatternTraits\<close> is declared for \<open>PatternPair\<close>, so the
  call selects the primary template, whose \<open>processIdImpl\<close> has an empty body.
\<close>

definition PatternPair_processId ::
  "('w, 'r) PatternPair \<Rightarrow> int \<Rightarrow> IdProcess \<Rightarrow> store \<Rightarrow> store option" where
  "PatternPair_processId pp depth idProcess s = Some s"

text \<open>
  The lambda \<open>func\<close> of \<open>matchPatterns\<close>: a fresh context, the match of
  \<open>std::forward<Value>(value)\<close>, and on success the handler and
  \<open>processId(pattern, 0, IdProcess::kCANCEL)\<close>. The accumulator holds \<open>result\<close>, the
  identifier store and the user's state. The outcome comes with what the match left in
  \<open>value\<close>.
\<close>

definition matchPatterns_func ::
  "equalT \<Rightarrow> ('w, 'r) PatternPair \<Rightarrow> val \<Rightarrow> bool \<Rightarrow> 'r \<times> store \<times> 'w \<Rightarrow>
   (bool \<times> val \<times> 'r \<times> store \<times> 'w) option" where
  "matchPatterns_func equal pp v lv acc =
     (case acc of (result, s, w) \<Rightarrow>
        (case PatternPair_matchValue equal pp v lv (s, []) of
           None \<Rightarrow> None
         | Some (matched, v', st1) \<Rightarrow>
             if matched
             then
               (case PatternPair_execute pp (fst st1) w of (result', w') \<Rightarrow>
                  (case PatternPair_processId pp 0 kCANCEL (fst st1) of
                     None \<Rightarrow> None
                   | Some s2 \<Rightarrow> Some (True, v', result', s2, w')))
             else Some (False, v', result, fst st1, w)))"

text \<open>
  The fold \<open>(func(patterns, value, result) || ...)\<close>. Every call of \<open>func\<close> gets the one
  object \<open>value\<close>, as the clauses before left it.
\<close>

fun matchPatterns_fold ::
  "equalT \<Rightarrow> val \<Rightarrow> bool \<Rightarrow> ('w, 'r) PatternPair list \<Rightarrow> 'r \<times> store \<times> 'w \<Rightarrow>
   (bool \<times> val \<times> 'r \<times> store \<times> 'w) option" where
  "matchPatterns_fold equal v lv [] acc = Some (False, v, acc)"
| "matchPatterns_fold equal v lv (pp # pps) acc =
     (case matchPatterns_func equal pp v lv acc of
        None \<Rightarrow> None
      | Some (matched, v', acc') \<Rightarrow>
          if matched then Some (True, v', acc')
          else matchPatterns_fold equal v' lv pps acc')"

text \<open>
  \<open>matchPatterns\<close>. \<open>isVoid\<close> says whether \<open>RetType\<close> is \<open>void\<close> (the statement
  form); \<open>result0\<close> is the value-initialised \<open>RetType result{}\<close>. With no clause,
  \<open>std::common_type_t<>\<close> names no type and the call is rejected. The exception
  leaves the store and the user's state as they are. The result is what the caller gets
  (the value or the exception), the identifier store and the user's state.
\<close>

definition matchPatterns ::
  "equalT \<Rightarrow> bool \<Rightarrow> val \<Rightarrow> bool \<Rightarrow> ('w, 'r) PatternPair list \<Rightarrow> 'r \<Rightarrow> store \<Rightarrow> 'w \<Rightarrow>
   ((error + 'r) \<times> store \<times> 'w) option" where
  "matchPatterns equal isVoid v lv patterns result0 s w =
     (if patterns = [] then None
      else
        case matchPatterns_fold equal v lv patterns (result0, s, w) of
          None \<Rightarrow> None
        | Some (matched, v', (result, s', w')) \<Rightarrow>
            if \<not> isVoid \<and> \<not> matched
            then Some (Inl (logic_error ''Error: no patterns got matched!''), s', w')
            else Some (Inr result, s', w'))"

section \<open>Auxiliary notions\<close>

text \<open>
  \<open>good j b\<close>: the block is fresh (empty, recorded depth 0), or its recorded depth is at
  least \<open>j\<close>. A rollback at depth \<open>j\<close> leaves such a block empty.
\<close>

definition good :: "int \<Rightarrow> Block \<Rightarrow> bool" where
  "good j b = ((mVariant b = Monostate \<and> mDepth b = 0) \<or> j \<le> mDepth b)"

text \<open>What \<open>processId\<close> does to one block: \<open>reset\<close> or \<open>confirm\<close>.\<close>

definition Block_process :: "IdProcess \<Rightarrow> Block \<Rightarrow> int \<Rightarrow> Block option" where
  "Block_process pr b d = (case pr of kCANCEL \<Rightarrow> Block_reset b d | kCONFIRM \<Rightarrow> Block_confirm b d)"


text \<open>The definitions unfolded to evaluate the model on a concrete input.\<close>

lemmas eval_simps =
  matchPattern.simps DsTuple_matchPatternImpl.simps DsRange_matchPatternImpl.simps
  matchPatterns_def matchPatterns_func_def PatternPair_matchValue_def PatternPair_execute_def
  PatternPair_processId_def Id_matchValue_def Id_hasValue_def Id_value_def Block_hasValue_def
  Block_value_def Block_init_def bindValue_def Id_processIdImpl_def Id_confirm_def Id_reset_def
  Block_confirm_def Block_reset_def Id_copy_def IdTraits_equal_def int32_def findOooIdx_def
  Let_def

section \<open>The rules of an identifier cell\<close>

lemma Block_reset_Some:
  "int32 (mDepth b - d) \<Longrightarrow>
   Block_reset b d = Some (if d \<le> mDepth b then b\<lparr>mVariant := Monostate, mDepth := d\<rparr> else b)"
  by (simp add: Block_reset_def)

text \<open>
  C8. \<open>reset(d)\<close> on a cell whose recorded depth is at least \<open>d\<close> clears the value slot
  and sets the recorded depth to \<open>d\<close>; on any other cell it changes nothing. No other
  cell of the store is touched. The difference \<open>mDepth - depth\<close> must be an
  \<open>int32_t\<close>, as the C++ subtraction requires.
\<close>

theorem cell_reset_rule:
  assumes "int32 (mDepth (s (Id_block x)) - d)"
  shows "\<exists>s'. Id_reset s x d = Some s' \<and>
          (if d \<le> mDepth (s (Id_block x))
           then mVariant (s' (Id_block x)) = Monostate \<and> mDepth (s' (Id_block x)) = d
           else mVariant (s' (Id_block x)) = mVariant (s (Id_block x)) \<and>
                mDepth (s' (Id_block x)) = mDepth (s (Id_block x)) \<and> s' = s) \<and>
          (\<forall>a. a \<noteq> Id_block x \<longrightarrow> s' a = s a)"
  using assms by (auto simp: Id_reset_def Block_reset_Some)

theorem cell_reset_rule_witness:
  "(\<exists>s'. Id_reset (\<lambda>_. \<lparr>mVariant = Owned (VInt 7), mDepth = 2\<rparr>) (OwnBlock 0) 1 = Some s' \<and>
      mVariant (s' 0) = Monostate \<and> mDepth (s' 0) = 1) \<and>
   Id_reset (\<lambda>_. \<lparr>mVariant = Owned (VInt 7), mDepth = 2\<rparr>) (OwnBlock 0) 3
     = Some (\<lambda>_. \<lparr>mVariant = Owned (VInt 7), mDepth = 2\<rparr>)"
proof -
  let ?s = "\<lambda>_::addr. \<lparr>mVariant = Owned (VInt 7), mDepth = 2\<rparr>"
  have r1: "int32 (mDepth (?s (Id_block (OwnBlock 0))) - 1)" by (simp add: int32_def)
  have r3: "int32 (mDepth (?s (Id_block (OwnBlock 0))) - 3)" by (simp add: int32_def)
  from cell_reset_rule [of ?s "OwnBlock 0" 1, OF r1] cell_reset_rule [of ?s "OwnBlock 0" 3, OF r3]
  show ?thesis by auto
qed

text \<open>
  C5. Matching an empty cell against \<open>v\<close> stores \<open>v\<close> (owned or borrowed, as
  \<open>StorePointer\<close> says) and succeeds; a borrowed \<open>v\<close> stays as it is, an owned one is
  moved from. Matching a full cell succeeds exactly when \<open>IdTraits::equal\<close>, whatever
  the user made it, holds of the stored value and \<open>v\<close>, and leaves \<open>v\<close> and the whole
  store, the cell included, as they were.
\<close>

theorem cell_match_rule:
  "(\<not> Id_hasValue s x \<longrightarrow>
      (\<exists>s'. Id_matchValue equal s x v sp = Some (True, (if sp then v else moved_from v), s') \<and>
            Id_hasValue s' x \<and> Id_value s' x = Inr v \<and>
            (\<forall>a. a \<noteq> Id_block x \<longrightarrow> s' a = s a))) \<and>
   (Id_hasValue s x \<longrightarrow>
      (\<exists>stored. Id_value s x = Inr stored \<and>
            Id_matchValue equal s x v sp = Some (equal stored v, v, s)))"
  by (auto simp: Id_matchValue_def Id_hasValue_def Id_value_def Block_hasValue_def
      Block_value_def bindValue_def split: ValueVariant.splits)

theorem cell_match_rule_witness:
  "(\<exists>s'. Id_matchValue IdTraits_equal (\<lambda>_. Block_init) (OwnBlock 0) (VInt 5) False
          = Some (True, VInt 5, s') \<and>
       Id_value s' (OwnBlock 0) = Inr (VInt 5)) \<and>
   Id_matchValue IdTraits_equal (\<lambda>_. \<lparr>mVariant = Owned (VInt 5), mDepth = 0\<rparr>) (OwnBlock 0) (VInt 6) False
     = Some (False, VInt 6, \<lambda>_. \<lparr>mVariant = Owned (VInt 5), mDepth = 0\<rparr>)"
proof -
  have e: "\<not> Id_hasValue (\<lambda>_. Block_init) (OwnBlock 0)"
    by (simp add: Id_hasValue_def Block_hasValue_def Block_init_def)
  have f: "Id_hasValue (\<lambda>_. \<lparr>mVariant = Owned (VInt 5), mDepth = 0\<rparr>) (OwnBlock 0)"
    by (simp add: Id_hasValue_def Block_hasValue_def)
  from e f
    cell_match_rule [of "\<lambda>_. Block_init" "OwnBlock 0" IdTraits_equal "VInt 5" False]
    cell_match_rule [of "\<lambda>_. \<lparr>mVariant = Owned (VInt 5), mDepth = 0\<rparr>" "OwnBlock 0"
      IdTraits_equal "VInt 6" False]
  show ?thesis
    by (auto simp: Id_value_def Block_value_def IdTraits_equal_def)
qed

text \<open>
  C9. \<open>value()\<close> on an empty cell throws; \<open>mutableValue()\<close> (reached through
  \<open>move()\<close>) on a cell that holds a borrowed pointer throws; \<open>value()\<close> on a bound
  cell, owned or borrowed, returns the captured value.
\<close>

theorem invalid_identifier_read:
  "(\<not> Id_hasValue s x \<longrightarrow> Id_value s x = Inl (logic_error ''invalid state!'')) \<and>
   (mVariant (s (Id_block x)) = Pointer p \<longrightarrow>
      Block_mutableValue (s (Id_block x)) = Inl (logic_error ''Cannot get mutableValue for pointer type!'') \<and>
      Id_move s x = Inl (logic_error ''Cannot get mutableValue for pointer type!'')) \<and>
   (mVariant (s (Id_block x)) = Owned v \<or> mVariant (s (Id_block x)) = Pointer v \<longrightarrow>
      Id_value s x = Inr v) \<and>
   (\<not> Id_hasValue s x \<longrightarrow> Id_matchValue equal s x v sp = Some (True, v', s') \<longrightarrow>
      Id_value s' x = Inr v)"
  by (auto simp: Id_hasValue_def Id_value_def Id_move_def Block_hasValue_def Block_value_def
      Block_mutableValue_def Id_matchValue_def bindValue_def split: ValueVariant.splits)

theorem invalid_identifier_read_witness:
  "Id_value (\<lambda>_. Block_init) (OwnBlock 0) = Inl (logic_error ''invalid state!'') \<and>
   Id_move (\<lambda>_. \<lparr>mVariant = Pointer (VInt 1), mDepth = 0\<rparr>) (OwnBlock 0)
     = Inl (logic_error ''Cannot get mutableValue for pointer type!'') \<and>
   Id_value (\<lambda>_. \<lparr>mVariant = Pointer (VInt 1), mDepth = 0\<rparr>) (OwnBlock 0) = Inr (VInt 1) \<and>
   Id_value (\<lambda>_. \<lparr>mVariant = Owned (VInt 1), mDepth = 0\<rparr>) (OwnBlock 0) = Inr (VInt 1)"
proof -
  have e: "\<not> Id_hasValue (\<lambda>_. Block_init) (OwnBlock 0)"
    by (simp add: Id_hasValue_def Block_hasValue_def Block_init_def)
  from e
    invalid_identifier_read [of "\<lambda>_. Block_init" "OwnBlock 0"]
    invalid_identifier_read [of "\<lambda>_. \<lparr>mVariant = Pointer (VInt 1), mDepth = 0\<rparr>" "OwnBlock 0"
      "VInt 1" "VInt 1"]
    invalid_identifier_read [of "\<lambda>_. \<lparr>mVariant = Owned (VInt 1), mDepth = 0\<rparr>" "OwnBlock 0"
      "VInt 1" "VInt 1"]
  show ?thesis by simp
qed

lemma Id_block_copy: "Id_block (Id_copy x) = Id_block x"
  by (simp add: Id_copy_def)

text \<open>
  C10. A copy-constructed \<open>Id\<close> resolves to the block of its source, so every
  operation through the copy is the operation through the source, on the same store;
  a binding made through the copy is read through the source.
\<close>

theorem id_copy_aliases:
  "Id_block (Id_copy x) = Id_block x \<and>
   Id_matchValue equal s (Id_copy x) v sp = Id_matchValue equal s x v sp \<and>
   Id_reset s (Id_copy x) d = Id_reset s x d \<and>
   Id_confirm s (Id_copy x) d = Id_confirm s x d \<and>
   Id_hasValue s (Id_copy x) = Id_hasValue s x \<and>
   Id_value s (Id_copy x) = Id_value s x \<and>
   (\<not> Id_hasValue s x \<longrightarrow>
      (\<exists>s'. Id_matchValue equal s (Id_copy x) v sp
              = Some (True, (if sp then v else moved_from v), s') \<and>
            Id_hasValue s' x \<and> Id_value s' x = Inr v))"
proof -
  have "Id_matchValue equal s (Id_copy x) v sp = Id_matchValue equal s x v sp"
    by (simp add: Id_matchValue_def Id_hasValue_def Id_value_def Id_block_copy)
  moreover have "Id_reset s (Id_copy x) d = Id_reset s x d"
    by (simp add: Id_reset_def Id_block_copy cong: option.case_cong)
  moreover have "Id_confirm s (Id_copy x) d = Id_confirm s x d"
    by (simp add: Id_confirm_def Id_block_copy cong: option.case_cong)
  moreover have "Id_hasValue s (Id_copy x) = Id_hasValue s x"
    by (simp add: Id_hasValue_def Id_block_copy)
  moreover have "Id_value s (Id_copy x) = Id_value s x"
    by (simp add: Id_value_def Id_block_copy)
  moreover have "\<not> Id_hasValue s x \<longrightarrow>
      (\<exists>s'. Id_matchValue equal s (Id_copy x) v sp
              = Some (True, (if sp then v else moved_from v), s') \<and>
            Id_hasValue s' x \<and> Id_value s' x = Inr v)"
    by (auto simp: Id_matchValue_def Id_hasValue_def Id_value_def Id_block_copy
        Block_hasValue_def Block_value_def bindValue_def split: ValueVariant.splits)
  ultimately show ?thesis by (simp add: Id_block_copy)
qed

theorem id_copy_aliases_witness:
  "\<exists>s'. Id_matchValue IdTraits_equal (\<lambda>_. Block_init) (Id_copy (OwnBlock 0)) (VInt 5) True
          = Some (True, VInt 5, s') \<and>
        Id_hasValue s' (OwnBlock 0) \<and> Id_value s' (OwnBlock 0) = Inr (VInt 5)"
proof -
  have e: "\<not> Id_hasValue (\<lambda>_. Block_init) (OwnBlock 0)"
    by (simp add: Id_hasValue_def Block_hasValue_def Block_init_def)
  from e id_copy_aliases [of "OwnBlock 0" IdTraits_equal "\<lambda>_. Block_init" "VInt 5" True]
  have "\<exists>s'. Id_matchValue IdTraits_equal (\<lambda>_. Block_init) (Id_copy (OwnBlock 0)) (VInt 5) True
          = Some (True, (if True then VInt 5 else moved_from (VInt 5)), s') \<and>
        Id_hasValue s' (OwnBlock 0) \<and> Id_value s' (OwnBlock 0) = Inr (VInt 5)"
    by blast
  then show ?thesis by simp
qed

section \<open>What a match does to the store\<close>

text \<open>
  The matcher changes the store only through \<open>Id::matchValue\<close> and \<open>processId\<close>.
  The lemma \<open>match_rel\<close> lifts any reflexive and transitive relation on stores that
  these two steps respect, at the identifiers of a set \<open>A\<close> and depths from \<open>j\<close> on,
  to a whole match; the frame and the depth invariant are instances.
\<close>

lemmas match_induct = matchPattern_matchPatternImpl_Or_matchPatternImpl_And_matchPatternImpl_DsTuple_matchPatternImpl_DsRange_matchPatternImpl_matchPatternMultipleImpl_matchPatternRangeImpl.induct

lemma pats_ids_nth: "i < length ps \<Longrightarrow> pat_ids (ps ! i) \<subseteq> pats_ids ps"
proof (induction ps arbitrary: i)
  case Nil
  then show ?case by simp
next
  case (Cons p ps)
  then show ?case by (cases i) auto
qed

lemma Id_matchValue_False:
  "Id_matchValue equal s x v sp = Some (False, v', s1) \<Longrightarrow> s1 = s \<and> v' = v"
  by (auto simp: Id_matchValue_def split: if_splits sum.splits prod.splits)

lemma processId_rel:
  fixes R :: "store \<Rightarrow> store \<Rightarrow> bool"
  assumes Rrefl: "\<And>s. R s s"
    and Rtrans: "\<And>s1 s2 s3. R s1 s2 \<Longrightarrow> R s2 s3 \<Longrightarrow> R s1 s3"
    and proc: "\<And>x d pr s s'. Id_block x \<in> A \<Longrightarrow> j \<le> d \<Longrightarrow>
                 Id_processIdImpl x d pr s = Some s' \<Longrightarrow> R s s'"
  shows "processId p d pr s = Some s' \<Longrightarrow> pat_ids p \<subseteq> A \<Longrightarrow> j \<le> d \<Longrightarrow> R s s'"
    and "processIds ps d pr s = Some s' \<Longrightarrow> pats_ids ps \<subseteq> A \<Longrightarrow> j \<le> d \<Longrightarrow> R s s'"
proof (induction p d pr s and ps d pr s arbitrary: s' and s' rule: processId_processIds.induct)
  case (8 x depth idProcess s)
  then show ?case using proc by simp
next
  case (11 x depth idProcess s)
  then show ?case using proc [of "Id_copy x"] by (simp add: Id_block_copy)
next
  case (14 p ps depth idProcess s)
  from "14.prems" obtain s1 where s1: "processId p depth idProcess s = Some s1"
    and s': "processIds ps depth idProcess s1 = Some s'"
    by (auto split: option.splits)
  from "14.prems" have sub: "pat_ids p \<subseteq> A" "pats_ids ps \<subseteq> A" by auto
  from "14.IH"(1) [OF s1 sub(1) "14.prems"(3)] "14.IH"(2) [OF s1 s' sub(2) "14.prems"(3)]
  show ?case by (rule Rtrans)
qed (auto simp: Rrefl)

lemma match_rel:
  fixes R :: "store \<Rightarrow> store \<Rightarrow> bool"
  assumes Rrefl: "\<And>s. R s s"
    and Rtrans: "\<And>s1 s2 s3. R s1 s2 \<Longrightarrow> R s2 s3 \<Longrightarrow> R s1 s3"
    and proc: "\<And>x d pr s s'. Id_block x \<in> A \<Longrightarrow> j \<le> d \<Longrightarrow>
                 Id_processIdImpl x d pr s = Some s' \<Longrightarrow> R s s'"
    and bind: "\<And>equal x d s v sp v' s1 s2. Id_block x \<in> A \<Longrightarrow> j \<le> d \<Longrightarrow>
                 Id_matchValue equal s x v sp = Some (True, v', s1) \<Longrightarrow>
                 Id_processIdImpl x d kCONFIRM s1 = Some s2 \<Longrightarrow> R s s2"
  shows "matchPattern equal v lv p depth st = Some (r, v', st') \<Longrightarrow> pat_ids p \<subseteq> A \<Longrightarrow>
           j \<le> depth \<Longrightarrow> R (fst st) (fst st')"
    and "matchPatternImpl equal v lv p depth st = Some (r, v', st') \<Longrightarrow> pat_ids p \<subseteq> A \<Longrightarrow>
           j \<le> depth \<Longrightarrow>
           (\<not> r \<longrightarrow> R (fst st) (fst st')) \<and>
           (\<forall>s''. processId p depth (if r then kCONFIRM else kCANCEL) (fst st') = Some s'' \<longrightarrow>
                  R (fst st) s'')"
    and "Or_matchPatternImpl equal v lv ps depth st = Some (r, v', st') \<Longrightarrow> pats_ids ps \<subseteq> A \<Longrightarrow>
           j \<le> depth \<Longrightarrow> R (fst st) (fst st')"
    and "And_matchPatternImpl equal v lv ps depth st = Some (r, v', st') \<Longrightarrow> pats_ids ps \<subseteq> A \<Longrightarrow>
           j \<le> depth \<Longrightarrow> R (fst st) (fst st')"
    and "DsTuple_matchPatternImpl equal vs isArray lv ps depth st = Some (r, vs', st') \<Longrightarrow>
           pats_ids ps \<subseteq> A \<Longrightarrow> j \<le> depth \<Longrightarrow> R (fst st) (fst st')"
    and "DsRange_matchPatternImpl equal src rb sz ps depth st = Some (r, st') \<Longrightarrow>
           pats_ids ps \<subseteq> A \<Longrightarrow> j \<le> depth \<Longrightarrow> R (fst st) (fst st')"
    and "matchPatternMultipleImpl equal vs lv vi pi ps depth I n st = Some (r, vs', st') \<Longrightarrow>
           pats_ids ps \<subseteq> A \<Longrightarrow> j \<le> depth \<Longrightarrow> R (fst st) (fst st')"
    and "matchPatternRangeImpl equal src rb pi ps depth I n st = Some (r, st') \<Longrightarrow>
           pats_ids ps \<subseteq> A \<Longrightarrow> j \<le> depth \<Longrightarrow> R (fst st) (fst st')"
proof (induction equal v lv p depth st and equal v lv p depth st and equal v lv ps depth st
    and equal v lv ps depth st and equal vs isArray lv ps depth st and equal src rb sz ps depth st
    and equal vs lv vi pi ps depth I n st and equal src rb pi ps depth I n st
    arbitrary: r v' st' and r v' st' and r v' st' and r v' st' and r vs' st' and r st'
      and r vs' st' and r st'
    rule: match_induct)
  case (1 equal v lv p depth st)
  from "1.prems"(1) obtain s0 c0 s' where i32: "int32 depth"
    and impl: "matchPatternImpl equal v lv p depth st = Some (r, v', (s0, c0))"
    and pr: "processId p depth (if r then kCONFIRM else kCANCEL) s0 = Some s'"
    and st': "st' = (s', c0)"
    by (auto simp: matchPattern.simps split: if_splits option.splits)
  from "1.IH" [OF _ impl "1.prems"(2,3)] i32 pr st' show ?case by simp
next
  case (4 equal v lv ps depth st)
  note prR = processId_rel [where R = R and A = A and j = j, OF Rrefl Rtrans proc]
  from "4.prems" have a: "R (fst st) (fst st')" using "4.IH" by simp
  from "4.prems" have "\<And>s'' pr. processIds ps depth pr (fst st') = Some s'' \<Longrightarrow> R (fst st') s''"
    using prR(2) by simp
  with a show ?case by (auto intro: Rtrans)
next
  case (6 equal v lv f ref p depth st)
  note prR = processId_rel [where R = R and A = A and j = j, OF Rrefl Rtrans proc]
  from "6.prems"(2,3) have sub: "pat_ids p \<subseteq> A" and d: "j \<le> depth + 1" by auto
  have a: "R (fst st) (fst st')"
  proof (cases "ref \<or> is_scalar (f v)")
    case True
    with "6.prems"(1) obtain w where
      "matchPattern equal (f v) ref p (depth + 1) st = Some (r, w, st')"
      by (auto split: option.splits)
    from "6.IH"(1) [OF True this sub d] show ?thesis .
  next
    case False
    with "6.prems"(1) obtain w s1 c1 where
      m: "matchPattern equal (f v) False p (depth + 1) (fst st, snd st @ [f v]) = Some (r, w, (s1, c1))"
      and st': "st' = (s1, c1[length (snd st) := w])"
      by (auto split: option.splits)
    from "6.IH"(2) [OF False m sub d] st' show ?thesis by simp
  qed
  from "6.prems" have "\<And>s'' pr. processId p depth pr (fst st') = Some s'' \<Longrightarrow> R (fst st') s''"
    using prR(1) by simp
  with a show ?case by (auto intro: Rtrans)
next
  case (7 equal v lv ps depth st)
  note prR = processId_rel [where R = R and A = A and j = j, OF Rrefl Rtrans proc]
  from "7.prems" have a: "R (fst st) (fst st')"
    using "7.IH" by (auto split: option.splits)
  from "7.prems" have "\<And>s'' pr. processIds ps depth pr (fst st') = Some s'' \<Longrightarrow> R (fst st') s''"
    using prR(2) by simp
  with a show ?case by (auto intro: Rtrans)
next
  case (8 equal v lv p depth st)
  note prR = processId_rel [where R = R and A = A and j = j, OF Rrefl Rtrans proc]
  from "8.prems" have a: "R (fst st) (fst st')"
    using "8.IH" by (auto split: option.splits)
  from "8.prems" have "\<And>s'' pr. processId p depth pr (fst st') = Some s'' \<Longrightarrow> R (fst st') s''"
    using prR(1) by simp
  with a show ?case by (auto intro: Rtrans)
next
  case (9 equal v lv x depth st)
  from "9.prems"(1) obtain s1 where mv: "Id_matchValue equal (fst st) x v lv = Some (r, v', s1)"
    and st': "st' = (s1, snd st)"
    by (auto split: option.splits)
  from "9.prems"(2) have xA: "Id_block x \<in> A" by simp
  show ?case
  proof (cases r)
    case True
    with mv st' bind [OF xA "9.prems"(3), of equal "fst st" v lv v' s1] show ?thesis by simp
  next
    case False
    with mv have "s1 = fst st" by (auto dest: Id_matchValue_False)
    with False st' proc [OF xA "9.prems"(3)] show ?thesis by (simp add: Rrefl)
  qed
next
  case (10 equal v lv ps depth st)
  note prR = processId_rel [where R = R and A = A and j = j, OF Rrefl Rtrans proc]
  from "10.prems" have a: "R (fst st) (fst st')"
    using "10.IH" by (auto split: if_splits val.splits option.splits)
  from "10.prems" have "\<And>s'' pr. processIds ps depth pr (fst st') = Some s'' \<Longrightarrow> R (fst st') s''"
    using prR(2) by simp
  with a show ?case by (auto intro: Rtrans)
next
  case (12 equal v lv x depth st)
  from "12.prems" have a: "R (fst st) (fst st')"
    using "12.IH" by (simp add: Id_block_copy)
  from "12.prems" have "\<And>s'' pr. Id_processIdImpl (Id_copy x) depth pr (fst st') = Some s'' \<Longrightarrow> R (fst st') s''"
    using proc [of "Id_copy x"] by (simp add: Id_block_copy)
  with a show ?case by (auto intro: Rtrans)
next
  case (13 equal v lv p g depth st)
  note prR = processId_rel [where R = R and A = A and j = j, OF Rrefl Rtrans proc]
  from "13.prems" have a: "R (fst st) (fst st')"
    using "13.IH" by (auto split: option.splits)
  from "13.prems" have "\<And>s'' pr. processId p depth pr (fst st') = Some s'' \<Longrightarrow> R (fst st') s''"
    using prR(1) by simp
  with a show ?case by (auto intro: Rtrans)
next
  case (15 equal v lv p depth st)
  then show ?case by simp
next
  case (16 equal v lv p q ps depth st)
  from "16.prems"(1) obtain r1 v1 st1 where
    m: "matchPattern equal v True p (depth + 1) st = Some (r1, v1, st1)"
    and rest: "if r1 then (r, v', st') = (True, v1, st1)
               else Or_matchPatternImpl equal v1 lv (q # ps) depth st1 = Some (r, v', st')"
    by (auto split: option.splits if_splits)
  from "16.prems" have sub: "pat_ids p \<subseteq> A" "pats_ids (q # ps) \<subseteq> A" and d: "j \<le> depth + 1"
    by auto
  from "16.IH"(1) [OF m sub(1) d] have a: "R (fst st) (fst st1)" .
  show ?case
  proof (cases r1)
    case True
    with rest a show ?thesis by simp
  next
    case False
    with rest have "Or_matchPatternImpl equal v1 lv (q # ps) depth st1 = Some (r, v', st')" by simp
    from "16.IH"(2) [OF m refl refl False this sub(2) "16.prems"(3)] a show ?thesis
      by (rule Rtrans [rotated])
  qed
next
  case (18 equal v lvLast p depth st)
  then show ?case by simp
next
  case (19 equal v lvLast p q ps depth st)
  from "19.prems"(1) obtain r1 v1 st1 where
    m: "matchPattern equal v True p (depth + 1) st = Some (r1, v1, st1)"
    and rest: "if r1 then And_matchPatternImpl equal v1 lvLast (q # ps) depth st1 = Some (r, v', st')
               else (r, v', st') = (False, v1, st1)"
    by (auto split: option.splits if_splits)
  from "19.prems" have sub: "pat_ids p \<subseteq> A" "pats_ids (q # ps) \<subseteq> A" and d: "j \<le> depth + 1"
    by auto
  from "19.IH"(1) [OF m sub(1) d] have a: "R (fst st) (fst st1)" .
  show ?case
  proof (cases r1)
    case False
    with rest a show ?thesis by simp
  next
    case True
    with rest have "And_matchPatternImpl equal v1 lvLast (q # ps) depth st1 = Some (r, v', st')" by simp
    from "19.IH"(2) [OF m refl refl True this sub(2) "19.prems"(3)] a show ?thesis
      by (rule Rtrans [rotated])
  qed
next
  case (20 equal vs isArray lv ps depth st)
  let ?k = "findOooIdx ps"
  show ?case
  proof (cases "nbOooOrBinderV ps = 0")
    case True
    with "20.prems"(1)
    have len: "length ps = length vs"
      and m: "matchPatternMultipleImpl equal vs True 0 0 ps depth 0 (length ps) st = Some (r, vs', st')"
      by (auto simp: DsTuple_matchPatternImpl.simps split: if_splits)
    from "20.IH"(1) [OF True _ m "20.prems"(2,3)] len show ?thesis by simp
  next
    case False
    with "20.prems"(1) have one: "nbOooOrBinderV ps = 1"
      by (simp add: DsTuple_matchPatternImpl.simps split: if_splits)
    from False one "20.prems"(1) have st1: "\<not> (isOooBinderV (ps ! ?k) \<and> \<not> isArray)"
      and st2: "?k \<le> length vs"
      and st3: "\<not> (0 < length ps - ?k - 1 \<and> length vs + ?k + 1 < length ps)"
      by (auto simp: DsTuple_matchPatternImpl.simps Let_def split: if_splits)
    let ?sub = "\<lambda>vs1. VSub vs1 ?k (nat (int ?k + (int (length vs) - (int (length ps) - 1))))"
    let ?mid = "\<lambda>r1 vs1 st1'. (if isArray \<and> isOooBinderV (ps ! ?k)
                 then if \<not> ?k < length vs then None
                      else let rangeSize = int (length vs) - (int (length ps) - 1);
                               sub = VSub vs1 ?k (nat (int ?k + rangeSize));
                               st2 = (fst st1', snd st1' @ [sub])
                           in if r1
                              then case matchPattern equal sub True (ps ! ?k) depth st2 of
                                     None \<Rightarrow> None
                                   | Some (result2, w, st3) \<Rightarrow> Some (result2, st3)
                              else Some (False, st2)
                 else Some (r1, st1'))"
    from False one st1 st2 st3 "20.prems"(1) obtain r1 vs1 st1' r2 st3' where
      pre: "matchPatternMultipleImpl equal vs lv 0 0 ps depth 0 ?k st = Some (r1, vs1, st1')"
      and mid: "?mid r1 vs1 st1' = Some (r2, st3')"
      and suf: "if r2 then matchPatternMultipleImpl equal vs1 lv (length vs + ?k + 1 - length ps)
                             (?k + 1) ps depth 0 (length ps - ?k - 1) st3' = Some (r, vs', st')
                else (r, vs', st') = (False, vs1, st3')"
      by (auto simp: DsTuple_matchPatternImpl.simps Let_def split: option.splits if_splits)
    from "20.IH"(2) [OF False _ refl refl refl refl st1 _ st3 pre "20.prems"(2,3)] one st2
    have a: "R (fst st) (fst st1')" by simp
    from one have kl: "?k < length ps" by (rule findOooIdx_less)
    with "20.prems"(2) pats_ids_nth [of ?k ps] have subk: "pat_ids (ps ! ?k) \<subseteq> A" by auto
    have b: "R (fst st1') (fst st3')"
    proof (cases "isArray \<and> isOooBinderV (ps ! ?k) \<and> r1")
      case True
      with mid obtain w where lt: "?k < length vs"
        and bm: "matchPattern equal (?sub vs1) True (ps ! ?k) depth (fst st1', snd st1' @ [?sub vs1])
                     = Some (r2, w, st3')"
        by (auto simp: Let_def split: if_splits option.splits)
      from "20.IH"(3) [OF False _ refl refl refl refl st1 _ st3 pre refl refl _ _ refl refl refl _
          bm subk "20.prems"(3)] one st2 True lt
      show ?thesis by simp
    next
      case False
      with mid show ?thesis by (auto simp: Rrefl Let_def split: if_splits)
    qed
    have c: "R (fst st3') (fst st')"
    proof (cases r2)
      case False
      with suf show ?thesis by (simp add: Rrefl)
    next
      case True
      with suf have "matchPatternMultipleImpl equal vs1 lv (length vs + ?k + 1 - length ps)
                       (?k + 1) ps depth 0 (length ps - ?k - 1) st3' = Some (r, vs', st')" by simp
      from "20.IH"(4) [OF False _ refl refl refl refl st1 _ st3 pre refl refl mid refl True
          this "20.prems"(2,3)] one st2
      show ?thesis by simp
    qed
    from a b c show ?thesis by (blast intro: Rtrans)
  qed
next
  case (21 equal src rb sz ps depth st)
  let ?k = "findOooIdx ps"
  let ?sub = "VSub src (rb + ?k) (rb + ?k + (sz - (length ps - 1)))"
  show ?case
  proof (cases "nbOooOrBinderV ps = 0")
    case True
    show ?thesis
    proof (cases "sz = length ps")
      case False
      with True "21.prems"(1) show ?thesis
        by (simp add: DsRange_matchPatternImpl.simps Rrefl)
    next
      case eq: True
      with True "21.prems"(1)
      have "matchPatternRangeImpl equal src rb 0 ps depth 0 (length ps) st = Some (r, st')"
        by (simp add: DsRange_matchPatternImpl.simps)
      from "21.IH"(1) [OF refl True _ this "21.prems"(2,3)] eq show ?thesis by simp
    qed
  next
    case False
    with "21.prems"(1) have one: "nbOooOrBinderV ps = 1"
      by (simp add: DsRange_matchPatternImpl.simps split: if_splits)
    show ?thesis
    proof (cases "sz < length ps - 1")
      case True
      with False one "21.prems"(1) show ?thesis
        by (simp add: DsRange_matchPatternImpl.simps Rrefl)
    next
      case ge: False
      let ?mid = "\<lambda>r1 st1. (if isOooBinderV (ps ! ?k)
                   then let rangeSize = sz - (length ps - 1);
                            endOoo = rb + ?k + rangeSize;
                            sub = VSub src (rb + ?k) endOoo;
                            st2 = (fst st1, snd st1 @ [sub])
                        in if r1
                           then case matchPattern equal sub True (ps ! ?k) depth st2 of
                                  None \<Rightarrow> None
                                | Some (result2, w, st3) \<Rightarrow> Some (result2, st3)
                           else Some (False, st2)
                   else Some (r1, st1))"
      from False one ge "21.prems"(1) obtain r1 st1 r2 st3 where
        pre: "matchPatternRangeImpl equal src rb 0 ps depth 0 ?k st = Some (r1, st1)"
        and mid: "?mid r1 st1 = Some (r2, st3)"
        and suf: "if r2 then matchPatternRangeImpl equal src (rb + ?k + (sz + 1 - length ps))
                               (?k + 1) ps depth 0 (length ps - ?k - 1) st3 = Some (r, st')
                  else (r, st') = (False, st3)"
        by (auto simp: DsRange_matchPatternImpl.simps Let_def split: option.splits if_splits)
      from "21.IH"(2) [OF refl False _ ge refl refl pre "21.prems"(2,3)] one
      have a: "R (fst st) (fst st1)" by simp
      from one have kl: "?k < length ps" by (rule findOooIdx_less)
      with "21.prems"(2) pats_ids_nth [of ?k ps] have subk: "pat_ids (ps ! ?k) \<subseteq> A" by auto
      have b: "R (fst st1) (fst st3)"
      proof (cases "isOooBinderV (ps ! ?k) \<and> r1")
        case True
        with mid obtain w where
          bm: "matchPattern equal ?sub True (ps ! ?k) depth (fst st1, snd st1 @ [?sub])
                       = Some (r2, w, st3)"
          by (auto simp: Let_def split: option.splits)
        from "21.IH"(3) [OF refl False _ ge refl refl pre refl refl refl refl _ refl refl refl refl _
            bm subk "21.prems"(3)] one True
        show ?thesis by simp
      next
        case False
        with mid show ?thesis by (auto simp: Rrefl Let_def split: if_splits)
      qed
      have c: "R (fst st3) (fst st')"
      proof (cases r2)
        case False
        with suf show ?thesis by (simp add: Rrefl)
      next
        case True
        with suf have "matchPatternRangeImpl equal src (rb + ?k + (sz + 1 - length ps))
                         (?k + 1) ps depth 0 (length ps - ?k - 1) st3 = Some (r, st')" by simp
        from "21.IH"(4) [OF refl False _ ge refl refl pre refl refl refl refl mid refl refl True
            this "21.prems"(2,3)] one
        show ?thesis by simp
      qed
      from a b c show ?thesis by (blast intro: Rtrans)
    qed
  qed
next
  case (23 equal vs lv vi pi ps depth I n st)
  from "23.prems"(1) obtain r1 w st1 where
    g: "I + vi < length vs" "I + pi < length ps"
    and m: "matchPattern equal (vs ! (I + vi)) lv (ps ! (I + pi)) (depth + 1) st = Some (r1, w, st1)"
    and rest: "if r1 then matchPatternMultipleImpl equal (vs[I + vi := w]) lv vi pi ps depth (Suc I) n st1
                            = Some (r, vs', st')
               else (r, vs', st') = (False, vs[I + vi := w], st1)"
    by (auto split: option.splits if_splits)
  from "23.prems" g pats_ids_nth [of "I + pi" ps]
  have sub: "pat_ids (ps ! (I + pi)) \<subseteq> A" and d: "j \<le> depth + 1" by auto
  from "23.IH"(1) [OF _ m sub d] g have a: "R (fst st) (fst st1)" by simp
  show ?case
  proof (cases r1)
    case False
    with rest a show ?thesis by simp
  next
    case True
    with rest have "matchPatternMultipleImpl equal (vs[I + vi := w]) lv vi pi ps depth (Suc I) n st1
                      = Some (r, vs', st')"
      by simp
    from "23.IH"(2) [OF _ m refl refl True this "23.prems"(2,3)] g a show ?thesis
      by (auto intro: Rtrans)
  qed
next
  case (25 equal src rb pi ps depth I n st)
  from "25.prems"(1) obtain r1 w st1 where
    g: "rb + I < length src" "I + pi < length ps"
    and m: "matchPattern equal (src ! (rb + I)) True (ps ! (I + pi)) (depth + 1) st = Some (r1, w, st1)"
    and rest: "if r1 then matchPatternRangeImpl equal src rb pi ps depth (Suc I) n st1 = Some (r, st')
               else (r, st') = (False, st1)"
    by (auto split: option.splits if_splits)
  from "25.prems" g pats_ids_nth [of "I + pi" ps]
  have sub: "pat_ids (ps ! (I + pi)) \<subseteq> A" and d: "j \<le> depth + 1" by auto
  from "25.IH"(1) [OF _ m sub d] g have a: "R (fst st) (fst st1)" by simp
  show ?case
  proof (cases r1)
    case False
    with rest a show ?thesis by simp
  next
    case True
    with rest have "matchPatternRangeImpl equal src rb pi ps depth (Suc I) n st1 = Some (r, st')"
      by simp
    from "25.IH"(2) [OF _ m refl refl True this "25.prems"(2,3)] g a show ?thesis
      by (auto intro: Rtrans)
  qed
qed (auto simp: Rrefl)

lemma Id_processIdImpl_eq:
  "Id_processIdImpl x d pr s =
     (case Block_process pr (s (Id_block x)) d of None \<Rightarrow> None
      | Some b \<Rightarrow> Some (s(Id_block x := b)))"
  by (simp add: Id_processIdImpl_def Block_process_def Id_reset_def Id_confirm_def
      split: IdProcess.splits)

lemma Block_process_idem:
  "Block_process pr b d = Some b' \<Longrightarrow> Block_process pr b' d = Some b'"
  by (cases pr)
    (auto simp: Block_process_def Block_reset_def Block_confirm_def int32_def split: if_splits)

lemma Block_process_good:
  "Block_process pr b d = Some b' \<Longrightarrow> j \<le> d \<Longrightarrow> good j b \<Longrightarrow> good j b'"
  by (cases pr)
    (auto simp: Block_process_def Block_reset_def Block_confirm_def good_def split: if_splits)

lemma Block_confirm_variant:
  "Block_confirm b d = Some b' \<Longrightarrow> mVariant b' = mVariant b"
  by (auto simp: Block_confirm_def split: if_splits)

lemma Block_reset_good_clears:
  "Block_reset b d = Some b' \<Longrightarrow> good d b \<Longrightarrow> mVariant b' = Monostate"
  by (auto simp: Block_reset_def good_def split: if_splits)

lemma Block_reset_deeper_clears:
  "Block_reset b d = Some b' \<Longrightarrow> good (d + 1) b \<Longrightarrow> mVariant b' = Monostate"
  by (auto simp: Block_reset_def good_def split: if_splits)

lemma Block_reset_zero:
  "Block_reset b 0 = Some b' \<Longrightarrow> good 0 b \<Longrightarrow> b' = Block_init"
  by (auto simp: Block_reset_def good_def Block_init_def split: if_splits)

lemma processId_char:
  "processId p d pr s = Some s' \<Longrightarrow>
     (a \<in> pat_ids p \<longrightarrow> Block_process pr (s a) d = Some (s' a)) \<and>
     (a \<notin> pat_ids p \<longrightarrow> s' a = s a)"
  "processIds ps d pr s = Some s' \<Longrightarrow>
     (a \<in> pats_ids ps \<longrightarrow> Block_process pr (s a) d = Some (s' a)) \<and>
     (a \<notin> pats_ids ps \<longrightarrow> s' a = s a)"
proof (induction p d pr s and ps d pr s arbitrary: s' and s' rule: processId_processIds.induct)
  case (8 x depth idProcess s)
  then show ?case by (auto simp: Id_processIdImpl_eq split: option.splits)
next
  case (11 x depth idProcess s)
  then show ?case by (auto simp: Id_processIdImpl_eq Id_block_copy split: option.splits)
next
  case (14 p ps depth idProcess s)
  from "14.prems" obtain s1 where s1: "processId p depth idProcess s = Some s1"
    and s': "processIds ps depth idProcess s1 = Some s'"
    by (auto split: option.splits)
  note h1 = "14.IH"(1) [OF s1] and h2 = "14.IH"(2) [OF s1 s']
  show ?case
  proof (cases "a \<in> pat_ids p")
    case inp: True
    with h1 have b1: "Block_process idProcess (s a) depth = Some (s1 a)" by simp
    show ?thesis
    proof (cases "a \<in> pats_ids ps")
      case True
      with h2 have "Block_process idProcess (s1 a) depth = Some (s' a)" by simp
      with Block_process_idem [OF b1] have "s' a = s1 a" by simp
      with b1 inp show ?thesis by simp
    next
      case False
      with h2 have "s' a = s1 a" by simp
      with b1 inp show ?thesis by simp
    qed
  next
    case False
    with h1 have "s1 a = s a" by simp
    with h2 False show ?thesis by auto
  qed
qed auto

lemma match_frame:
  assumes "matchPattern equal v lv p depth st = Some (r, v', st')" and "a \<notin> pat_ids p"
  shows "fst st' a = fst st a"
proof -
  let ?R = "\<lambda>s s'. s' a = s a"
  have "?R (fst st) (fst st')"
  proof (rule match_rel(1) [where R = ?R and A = "- {a}" and j = depth, OF _ _ _ _ assms(1)])
    show "\<And>x d pr s s'. Id_block x \<in> - {a} \<Longrightarrow> depth \<le> d \<Longrightarrow>
            Id_processIdImpl x d pr s = Some s' \<Longrightarrow> s' a = s a"
      by (auto simp: Id_processIdImpl_eq split: option.splits)
    show "\<And>equal x d s v sp v' s1 s2. Id_block x \<in> - {a} \<Longrightarrow> depth \<le> d \<Longrightarrow>
            Id_matchValue equal s x v sp = Some (True, v', s1) \<Longrightarrow>
            Id_processIdImpl x d kCONFIRM s1 = Some s2 \<Longrightarrow> s2 a = s a"
      by (auto simp: Id_processIdImpl_eq Id_matchValue_def
          split: option.splits if_splits sum.splits prod.splits)
    show "pat_ids p \<subseteq> - {a}" using assms(2) by auto
  qed simp_all
  then show ?thesis .
qed

lemma bind_confirm_good:
  assumes "Id_matchValue equal s x v sp = Some (True, v', s1)"
    and "Id_processIdImpl x d kCONFIRM s1 = Some s2" and "j \<le> d" and "good j (s a)"
  shows "good j (s2 a)"
proof (cases "a = Id_block x")
  case False
  with assms show ?thesis
    by (auto simp: Id_processIdImpl_eq Id_matchValue_def
        split: option.splits if_splits sum.splits prod.splits)
next
  case True
  with assms show ?thesis
    by (auto simp: Id_processIdImpl_eq Id_matchValue_def Block_process_def Block_confirm_def
        good_def Id_hasValue_def Block_hasValue_def bindValue_def
        split: option.splits if_splits sum.splits ValueVariant.splits prod.splits)
qed

lemma good_proc:
  "j \<le> d \<Longrightarrow> Id_processIdImpl x d pr s = Some s' \<Longrightarrow> good j (s a) \<longrightarrow> good j (s' a)"
  by (auto simp: Id_processIdImpl_eq split: option.splits if_splits dest: Block_process_good)

lemma match_good_all:
  assumes d: "j \<le> depth"
  shows "matchPattern equal v lv p depth st = Some (r, v', st') \<Longrightarrow>
           good j (fst st a) \<longrightarrow> good j (fst st' a)"
    and "matchPatternImpl equal v lv p depth st = Some (r, v', st') \<Longrightarrow>
           (\<not> r \<longrightarrow> good j (fst st a) \<longrightarrow> good j (fst st' a)) \<and>
           (\<forall>s''. processId p depth (if r then kCONFIRM else kCANCEL) (fst st') = Some s'' \<longrightarrow>
                  good j (fst st a) \<longrightarrow> good j (s'' a))"
proof -
  let ?R = "\<lambda>s s'. good j (s a) \<longrightarrow> good j (s' a)"
  {
    assume m: "matchPattern equal v lv p depth st = Some (r, v', st')"
    show "good j (fst st a) \<longrightarrow> good j (fst st' a)"
    proof (rule match_rel(1) [where R = ?R and A = UNIV and j = j, OF _ _ _ _ m _ d])
      show "\<And>x d pr s s'. Id_block x \<in> UNIV \<Longrightarrow> j \<le> d \<Longrightarrow>
              Id_processIdImpl x d pr s = Some s' \<Longrightarrow> good j (s a) \<longrightarrow> good j (s' a)"
        using good_proc by blast
      show "\<And>equal x d s v sp v' s1 s2. Id_block x \<in> UNIV \<Longrightarrow> j \<le> d \<Longrightarrow>
              Id_matchValue equal s x v sp = Some (True, v', s1) \<Longrightarrow>
              Id_processIdImpl x d kCONFIRM s1 = Some s2 \<Longrightarrow> good j (s a) \<longrightarrow> good j (s2 a)"
        using bind_confirm_good by blast
    qed simp_all
  }
  {
    assume m: "matchPatternImpl equal v lv p depth st = Some (r, v', st')"
    show "(\<not> r \<longrightarrow> good j (fst st a) \<longrightarrow> good j (fst st' a)) \<and>
           (\<forall>s''. processId p depth (if r then kCONFIRM else kCANCEL) (fst st') = Some s'' \<longrightarrow>
                  good j (fst st a) \<longrightarrow> good j (s'' a))"
    proof (rule match_rel(2) [where R = ?R and A = UNIV and j = j, OF _ _ _ _ m _ d])
      show "\<And>x d pr s s'. Id_block x \<in> UNIV \<Longrightarrow> j \<le> d \<Longrightarrow>
              Id_processIdImpl x d pr s = Some s' \<Longrightarrow> good j (s a) \<longrightarrow> good j (s' a)"
        using good_proc by blast
      show "\<And>equal x d s v sp v' s1 s2. Id_block x \<in> UNIV \<Longrightarrow> j \<le> d \<Longrightarrow>
              Id_matchValue equal s x v sp = Some (True, v', s1) \<Longrightarrow>
              Id_processIdImpl x d kCONFIRM s1 = Some s2 \<Longrightarrow> good j (s a) \<longrightarrow> good j (s2 a)"
        using bind_confirm_good by blast
    qed simp_all
  }
qed

lemma match_good:
  "matchPattern equal v lv p depth st = Some (r, v', st') \<Longrightarrow> j \<le> depth \<Longrightarrow>
     good j (fst st a) \<Longrightarrow> good j (fst st' a)"
  using match_good_all(1) [of j depth equal v lv p st r v' st' a] by blast

lemma matchImpl_fail_good:
  "matchPatternImpl equal v lv p depth st = Some (False, v', st') \<Longrightarrow> j \<le> depth \<Longrightarrow>
     good j (fst st a) \<Longrightarrow> good j (fst st' a)"
  using match_good_all(2) [of j depth equal v lv p st False v' st' a] by blast

text \<open>A failed match leaves every cell of the pattern empty that was rollbackable before.\<close>

lemma match_fail_clears:
  assumes m: "matchPattern equal v lv p depth st = Some (False, v', st')"
    and a: "a \<in> pat_ids p" and g: "good depth (fst st a)"
  shows "mVariant (fst st' a) = Monostate"
proof -
  from m obtain s0 c0 s' where
    impl: "matchPatternImpl equal v lv p depth st = Some (False, v', (s0, c0))"
    and pr: "processId p depth kCANCEL s0 = Some s'" and st': "st' = (s', c0)"
    by (auto simp: matchPattern.simps split: if_splits option.splits)
  from matchImpl_fail_good [OF impl _ g] have "good depth (s0 a)" by simp
  moreover from processId_char(1) [OF pr, of a] a have "Block_reset (s0 a) depth = Some (s' a)"
    by (simp add: Block_process_def)
  ultimately show ?thesis using st' by (simp add: Block_reset_good_clears)
qed

text \<open>A failed clause (depth 0) on fresh cells restores the store.\<close>

lemma match_fail_restores:
  assumes m: "matchPattern equal v lv p 0 st = Some (False, v', st')"
    and fresh: "\<forall>a\<in>pat_ids p. fst st a = Block_init"
  shows "fst st' = fst st"
proof
  fix a
  from m obtain s0 c0 s' where
    impl: "matchPatternImpl equal v lv p 0 st = Some (False, v', (s0, c0))"
    and pr: "processId p 0 kCANCEL s0 = Some s'" and st': "st' = (s', c0)"
    by (auto simp: matchPattern.simps split: if_splits option.splits)
  show "fst st' a = fst st a"
  proof (cases "a \<in> pat_ids p")
    case False
    with match_frame [OF m] show ?thesis by simp
  next
    case True
    with fresh have i: "fst st a = Block_init" by simp
    then have "good 0 (fst st a)" by (simp add: good_def Block_init_def)
    from matchImpl_fail_good [OF impl _ this] have "good 0 (s0 a)" by simp
    moreover from processId_char(1) [OF pr, of a] True
    have "Block_reset (s0 a) 0 = Some (s' a)" by (simp add: Block_process_def)
    ultimately have "s' a = Block_init" by (simp add: Block_reset_zero)
    with i st' show ?thesis by simp
  qed
qed

section \<open>What a match does to the value\<close>

text \<open>
  A match leaves the value it ran on as it was when the value is an lvalue, and when it
  is an rvalue that a move leaves unchanged.
\<close>

lemma map_eq_self: "map f xs = xs \<longleftrightarrow> (\<forall>x\<in>set xs. f x = x)"
  by (induction xs) auto

lemma Id_matchValue_kept:
  "Id_matchValue equal s x v sp = Some (r, v', s') \<Longrightarrow> sp \<or> moved_from v = v \<Longrightarrow> v' = v"
  by (auto simp: Id_matchValue_def bindValue_def split: if_splits sum.splits)

lemma match_value_kept:
  shows "matchPattern equal v lv p depth st = Some (r, v', st') \<Longrightarrow>
           lv \<or> moved_from v = v \<Longrightarrow> v' = v"
    and "matchPatternImpl equal v lv p depth st = Some (r, v', st') \<Longrightarrow>
           lv \<or> moved_from v = v \<Longrightarrow> v' = v"
    and "Or_matchPatternImpl equal v lv ps depth st = Some (r, v', st') \<Longrightarrow>
           lv \<or> moved_from v = v \<Longrightarrow> v' = v"
    and "And_matchPatternImpl equal v lv ps depth st = Some (r, v', st') \<Longrightarrow>
           lv \<or> moved_from v = v \<Longrightarrow> v' = v"
    and "DsTuple_matchPatternImpl equal vs isArray lv ps depth st = Some (r, vs', st') \<Longrightarrow>
           lv \<or> (\<forall>e\<in>set vs. moved_from e = e) \<Longrightarrow> vs' = vs"
    and "DsRange_matchPatternImpl equal src rb sz ps depth st = Some (r, st') \<Longrightarrow> True"
    and "matchPatternMultipleImpl equal vs lv vi pi ps depth I n st = Some (r, vs', st') \<Longrightarrow>
           lv \<or> (\<forall>e\<in>set vs. moved_from e = e) \<Longrightarrow> vs' = vs"
    and "matchPatternRangeImpl equal src rb pi ps depth I n st = Some (r, st') \<Longrightarrow> True"
proof (induction equal v lv p depth st and equal v lv p depth st and equal v lv ps depth st
    and equal v lv ps depth st and equal vs isArray lv ps depth st and equal src rb sz ps depth st
    and equal vs lv vi pi ps depth I n st and equal src rb pi ps depth I n st
    arbitrary: r v' st' and r v' st' and r v' st' and r v' st' and r vs' st' and r st'
      and r vs' st' and r st'
    rule: match_induct)
  case (1 equal v lv p depth st)
  from "1.prems"(1) obtain st0 where i32: "int32 depth"
    and impl: "matchPatternImpl equal v lv p depth st = Some (r, v', st0)"
    by (auto simp: matchPattern.simps split: if_splits option.splits)
  from "1.IH" [OF _ impl "1.prems"(2)] i32 show ?case by simp
next
  case (6 equal v lv f ref p depth st)
  then show ?case by (auto split: if_splits option.splits)
next
  case (7 equal v lv ps depth st)
  from "7.prems"(1) obtain nbId where nb: "NbIdInTuple (butlast ps) = Some nbId"
    and m: "And_matchPatternImpl equal v (if nbId = 0 then lv else True) ps depth st = Some (r, v', st')"
    by (auto split: option.splits)
  from "7.prems"(2) have "(if nbId = 0 then lv else True) \<or> moved_from v = v" by auto
  from "7.IH" [OF nb m this] show ?case .
next
  case (8 equal v lv p depth st)
  then show ?case by (auto split: option.splits)
next
  case (9 equal v lv x depth st)
  then show ?case by (auto split: option.splits dest: Id_matchValue_kept)
next
  case (10 equal v lv ps depth st)
  from "10.prems"(1) have nb: "\<not> \<not> (nbOooOrBinderV ps = 0 \<or> nbOooOrBinderV ps = 1)"
    by (auto split: if_splits)
  show ?case
  proof (cases v)
    case (VInt i)
    with "10.prems"(1) show ?thesis by (auto split: if_splits)
  next
    case (VTuple vs)
    with "10.prems"(1) nb obtain vs' where
      m: "DsTuple_matchPatternImpl equal vs False lv ps depth st = Some (r, vs', st')"
      and v': "v' = VTuple vs'"
      by (auto split: option.splits)
    from "10.prems"(2) VTuple have "lv \<or> (\<forall>e\<in>set vs. moved_from e = e)"
      by (auto simp: map_eq_self)
    from "10.IH"(1) [OF nb VTuple m this] v' VTuple show ?thesis by simp
  next
    case (VArray vs)
    with "10.prems"(1) nb obtain vs' where
      m: "DsTuple_matchPatternImpl equal vs True lv ps depth st = Some (r, vs', st')"
      and v': "v' = VArray vs'"
      by (auto split: option.splits)
    from "10.prems"(2) VArray have "lv \<or> (\<forall>e\<in>set vs. moved_from e = e)"
      by (auto simp: map_eq_self)
    from "10.IH"(2) [OF nb VArray m this] v' VArray show ?thesis by simp
  next
    case (VRange xs)
    with "10.prems"(1) show ?thesis by (auto split: if_splits option.splits)
  next
    case (VSub src b e)
    with "10.prems"(1) show ?thesis by (auto split: if_splits option.splits)
  qed
next
  case (13 equal v lv p g depth st)
  then show ?case by (auto split: option.splits)
next
  case (16 equal v lv p q ps depth st)
  from "16.prems"(1) obtain r1 v1 st1 where
    m: "matchPattern equal v True p (depth + 1) st = Some (r1, v1, st1)"
    and rest: "if r1 then (r, v', st') = (True, v1, st1)
               else Or_matchPatternImpl equal v1 lv (q # ps) depth st1 = Some (r, v', st')"
    by (auto split: option.splits if_splits)
  from "16.IH"(1) [OF m] have v1: "v1 = v" by simp
  show ?case
  proof (cases r1)
    case True
    with rest v1 show ?thesis by simp
  next
    case False
    with rest have o: "Or_matchPatternImpl equal v1 lv (q # ps) depth st1 = Some (r, v', st')" by simp
    from "16.prems"(2) v1 have "lv \<or> moved_from v1 = v1" by simp
    from "16.IH"(2) [OF m refl refl False o this] v1 show ?thesis by simp
  qed
next
  case (19 equal v lvLast p q ps depth st)
  from "19.prems"(1) obtain r1 v1 st1 where
    m: "matchPattern equal v True p (depth + 1) st = Some (r1, v1, st1)"
    and rest: "if r1 then And_matchPatternImpl equal v1 lvLast (q # ps) depth st1 = Some (r, v', st')
               else (r, v', st') = (False, v1, st1)"
    by (auto split: option.splits if_splits)
  from "19.IH"(1) [OF m] have v1: "v1 = v" by simp
  show ?case
  proof (cases r1)
    case False
    with rest v1 show ?thesis by simp
  next
    case True
    with rest have o: "And_matchPatternImpl equal v1 lvLast (q # ps) depth st1 = Some (r, v', st')"
      by simp
    from "19.prems"(2) v1 have "lvLast \<or> moved_from v1 = v1" by simp
    from "19.IH"(2) [OF m refl refl True o this] v1 show ?thesis by simp
  qed
next
  case (20 equal vs isArray lv ps depth st)
  let ?k = "findOooIdx ps"
  show ?case
  proof (cases "nbOooOrBinderV ps = 0")
    case True
    with "20.prems"(1)
    have len: "length ps = length vs"
      and m: "matchPatternMultipleImpl equal vs True 0 0 ps depth 0 (length ps) st = Some (r, vs', st')"
      by (auto simp: DsTuple_matchPatternImpl.simps split: if_splits)
    from "20.IH"(1) [OF True _ m] len show ?thesis by simp
  next
    case False
    with "20.prems"(1) have one: "nbOooOrBinderV ps = 1"
      by (simp add: DsTuple_matchPatternImpl.simps split: if_splits)
    from False one "20.prems"(1) have st1: "\<not> (isOooBinderV (ps ! ?k) \<and> \<not> isArray)"
      and st2: "?k \<le> length vs"
      and st3: "\<not> (0 < length ps - ?k - 1 \<and> length vs + ?k + 1 < length ps)"
      by (auto simp: DsTuple_matchPatternImpl.simps Let_def split: if_splits)
    let ?mid = "\<lambda>r1 vs1 st1'. (if isArray \<and> isOooBinderV (ps ! ?k)
                 then if \<not> ?k < length vs then None
                      else let rangeSize = int (length vs) - (int (length ps) - 1);
                               sub = VSub vs1 ?k (nat (int ?k + rangeSize));
                               st2 = (fst st1', snd st1' @ [sub])
                           in if r1
                              then case matchPattern equal sub True (ps ! ?k) depth st2 of
                                     None \<Rightarrow> None
                                   | Some (result2, w, st3) \<Rightarrow> Some (result2, st3)
                              else Some (False, st2)
                 else Some (r1, st1'))"
    from False one st1 st2 st3 "20.prems"(1) obtain r1 vs1 st1' r2 st3' where
      pre: "matchPatternMultipleImpl equal vs lv 0 0 ps depth 0 ?k st = Some (r1, vs1, st1')"
      and mid: "?mid r1 vs1 st1' = Some (r2, st3')"
      and suf: "if r2 then matchPatternMultipleImpl equal vs1 lv (length vs + ?k + 1 - length ps)
                             (?k + 1) ps depth 0 (length ps - ?k - 1) st3' = Some (r, vs', st')
                else (r, vs', st') = (False, vs1, st3')"
      by (auto simp: DsTuple_matchPatternImpl.simps Let_def split: option.splits if_splits)
    from "20.IH"(2) [OF False _ refl refl refl refl st1 _ st3 pre "20.prems"(2)] one st2
    have a: "vs1 = vs" by simp
    show ?thesis
    proof (cases r2)
      case False
      with suf a show ?thesis by simp
    next
      case True
      with suf have s: "matchPatternMultipleImpl equal vs1 lv (length vs + ?k + 1 - length ps)
                       (?k + 1) ps depth 0 (length ps - ?k - 1) st3' = Some (r, vs', st')" by simp
      from "20.prems"(2) a have "lv \<or> (\<forall>e\<in>set vs1. moved_from e = e)" by simp
      from "20.IH"(4) [OF False _ refl refl refl refl st1 _ st3 pre refl refl mid refl True
          s this] one st2 a
      show ?thesis by simp
    qed
  qed
next
  case (23 equal vs lv vi pi ps depth I n st)
  from "23.prems"(1) obtain r1 w st1 where
    g: "I + vi < length vs" "I + pi < length ps"
    and m: "matchPattern equal (vs ! (I + vi)) lv (ps ! (I + pi)) (depth + 1) st = Some (r1, w, st1)"
    and rest: "if r1 then matchPatternMultipleImpl equal (vs[I + vi := w]) lv vi pi ps depth (Suc I) n st1
                            = Some (r, vs', st')
               else (r, vs', st') = (False, vs[I + vi := w], st1)"
    by (auto split: option.splits if_splits)
  from "23.prems"(2) g have "lv \<or> moved_from (vs ! (I + vi)) = vs ! (I + vi)" by auto
  from "23.IH"(1) [OF _ m this] g have w: "w = vs ! (I + vi)" by simp
  then have upd: "vs[I + vi := w] = vs" by simp
  show ?case
  proof (cases r1)
    case False
    with rest upd show ?thesis by simp
  next
    case True
    with rest have s: "matchPatternMultipleImpl equal (vs[I + vi := w]) lv vi pi ps depth (Suc I) n st1
                      = Some (r, vs', st')"
      by simp
    from "23.prems"(2) upd have "lv \<or> (\<forall>e\<in>set (vs[I + vi := w]). moved_from e = e)" by simp
    from "23.IH"(2) [OF _ m refl refl True s this] g upd show ?thesis by simp
  qed
qed auto

section \<open>Negation\<close>

text \<open>
  When the cells a pattern \<open>P\<close> refers to are fresh (empty with recorded depth 0, as a
  default-constructed \<open>Id\<close> is and as a failed clause leaves them), matching
  \<open>not_(P)\<close> against any value, at any depth, leaves every one of them empty, whether
  the node succeeds or fails: the inner match cancels at the depth below when \<open>P\<close>
  fails, and the node cancels at its own depth when \<open>P\<close> matches.
\<close>

lemma not_hides_fresh_captures:
  assumes fresh: "\<forall>a\<in>pat_ids P. s a = Block_init"
    and m: "matchPattern equal v lv (Not P) depth (s, ctx) = Some (r, v', (s', ctx'))"
  shows "\<forall>x. Id_block x \<in> pat_ids P \<longrightarrow> \<not> Id_hasValue s' x"
proof (intro allI impI)
  fix x
  assume x: "Id_block x \<in> pat_ids P"
  let ?a = "Id_block x"
  from m obtain r1 v1 s0 c0 where
    inner: "matchPattern equal v lv P (depth + 1) (s, ctx) = Some (r1, v1, (s0, c0))"
    and pr: "processId P depth (if r1 then kCANCEL else kCONFIRM) s0 = Some s'"
    by (auto simp: matchPattern.simps split: if_splits option.splits)
  from fresh x have g: "good (depth + 1) (fst (s, ctx) ?a)"
    by (simp add: good_def Block_init_def)
  have "mVariant (s' ?a) = Monostate"
  proof (cases r1)
    case True
    from match_good [OF inner _ g] have "good (depth + 1) (s0 ?a)" by simp
    moreover from processId_char(1) [OF pr, of ?a] x True
    have "Block_reset (s0 ?a) depth = Some (s' ?a)" by (simp add: Block_process_def)
    ultimately show ?thesis by (simp add: Block_reset_deeper_clears)
  next
    case False
    with inner have "matchPattern equal v lv P (depth + 1) (s, ctx) = Some (False, v1, (s0, c0))"
      by simp
    from match_fail_clears [OF this x g] have "mVariant (s0 ?a) = Monostate" by simp
    moreover from processId_char(1) [OF pr, of ?a] x False
    have "Block_confirm (s0 ?a) depth = Some (s' ?a)" by (simp add: Block_process_def)
    ultimately show ?thesis by (simp add: Block_confirm_variant)
  qed
  then show "\<not> Id_hasValue s' x" by (simp add: Id_hasValue_def Block_hasValue_def)
qed

text \<open>
  C7. Not hides captures fails on a cell that enters the node empty with a stale recorded
  depth. \<open>Id::matchValue\<close> does not record the depth of a binding and \<open>confirm\<close> only
  lowers a recorded depth, so a cell that a rollback at depth 1 emptied and that is bound
  again at depth 3 keeps recorded depth 1, and the rollback at depth 2 skips it. In
  \<open>match(3)(pattern | or_(and_(x, 1), not_(and_(x, 5))) = ...)\<close> the first alternative
  binds \<open>x\<close> and is rolled back at depth 1 (first equation); the node
  \<open>not_(and_(x, 5))\<close> then binds \<open>x\<close> again, \<open>and_(x, 5)\<close> fails, and the node succeeds
  with \<open>x\<close> holding 3 (second equation); the clause matches and its handler reads 3
  from \<open>x\<close> (third equation, and the fourth for the scrutinee passed as an rvalue).
\<close>

theorem capture_survives_under_not:
  "matchPattern IdTraits_equal (VInt 3) True (And [Ident (PtrBlock 0), Lit (VInt 1)]) 1
     (\<lambda>_. Block_init, [])
     = Some (False, VInt 3, ((\<lambda>_. Block_init)(0 := \<lparr>mVariant = Monostate, mDepth = 1\<rparr>), [])) \<and>
   matchPattern IdTraits_equal (VInt 3) True (Not (And [Ident (PtrBlock 0), Lit (VInt 5)])) 1
     ((\<lambda>_. Block_init)(0 := \<lparr>mVariant = Monostate, mDepth = 1\<rparr>), [])
     = Some (True, VInt 3,
             ((\<lambda>_. Block_init)(0 := \<lparr>mVariant = Pointer (VInt 3), mDepth = 1\<rparr>), [])) \<and>
   matchPatterns IdTraits_equal False (VInt 3) True
     [\<lparr>mPattern = Or [And [Ident (PtrBlock 0), Lit (VInt 1)],
                        Not (And [Ident (PtrBlock 0), Lit (VInt 5)])],
       mHandler = (\<lambda>s w. (Id_value s (OwnBlock 0), w))\<rparr>]
     (Inl (logic_error [])) (\<lambda>_. Block_init) ()
     = Some (Inr (Inr (VInt 3)),
             (\<lambda>_. Block_init)(0 := \<lparr>mVariant = Pointer (VInt 3), mDepth = 0\<rparr>), ()) \<and>
   matchPatterns IdTraits_equal False (VInt 3) False
     [\<lparr>mPattern = Or [And [Ident (PtrBlock 0), Lit (VInt 1)],
                        Not (And [Ident (PtrBlock 0), Lit (VInt 5)])],
       mHandler = (\<lambda>s w. (Id_value s (OwnBlock 0), w))\<rparr>]
     (Inl (logic_error [])) (\<lambda>_. Block_init) ()
     = Some (Inr (Inr (VInt 3)),
             (\<lambda>_. Block_init)(0 := \<lparr>mVariant = Pointer (VInt 3), mDepth = 0\<rparr>), ())"
  by (simp add: eval_simps fun_eq_iff)

section \<open>The driver's clauses\<close>

lemma func_miss:
  assumes "matchPattern equal v lv (mPattern pp) 0 (s, []) = Some (False, v', st')"
    and "\<forall>a\<in>pat_ids (mPattern pp). s a = Block_init"
  shows "matchPatterns_func equal pp v lv (result, s, w) = Some (False, v', result, s, w)"
proof -
  from match_fail_restores [OF assms(1)] assms(2) have "fst st' = s" by simp
  with assms(1) show ?thesis
    by (simp add: matchPatterns_func_def PatternPair_matchValue_def)
qed

lemma func_hit:
  assumes "matchPattern equal v lv (mPattern pp) 0 (s, []) = Some (True, v', st1)"
  shows "matchPatterns_func equal pp v lv (result, s, w) =
           Some (True, v', fst (mHandler pp (fst st1) w), fst st1, snd (mHandler pp (fst st1) w))"
  using assms
  by (simp add: matchPatterns_func_def PatternPair_matchValue_def PatternPair_execute_def
      PatternPair_processId_def split: prod.splits)

lemma fold_all_miss:
  assumes "lv \<or> moved_from v = v"
    and "\<forall>pp\<in>set pps. \<forall>a\<in>pat_ids (mPattern pp). s a = Block_init"
    and "\<forall>pp\<in>set pps. \<exists>v' st'. matchPattern equal v lv (mPattern pp) 0 (s, []) = Some (False, v', st')"
  shows "matchPatterns_fold equal v lv pps (result, s, w) = Some (False, v, result, s, w)"
  using assms(2,3)
proof (induction pps)
  case Nil
  then show ?case by simp
next
  case (Cons pp pps)
  from Cons.prems obtain v' st' where
    m: "matchPattern equal v lv (mPattern pp) 0 (s, []) = Some (False, v', st')" by auto
  from match_value_kept(1) [OF m assms(1)] have v': "v' = v" .
  from m v' Cons.prems have "matchPatterns_func equal pp v lv (result, s, w) = Some (False, v, result, s, w)"
    by (auto intro: func_miss)
  with Cons show ?case by simp
qed

lemma fold_first_hit:
  assumes "lv \<or> moved_from v = v"
    and "\<forall>pp\<in>set pps. \<forall>a\<in>pat_ids (mPattern pp). s a = Block_init"
    and "i < length pps"
    and "matchPattern equal v lv (mPattern (pps ! i)) 0 (s, []) = Some (True, v1, st1)"
    and "\<forall>k<i. \<exists>v' st'. matchPattern equal v lv (mPattern (pps ! k)) 0 (s, []) = Some (False, v', st')"
  shows "matchPatterns_fold equal v lv pps (result, s, w) =
           Some (True, v1, fst (mHandler (pps ! i) (fst st1) w), fst st1,
                 snd (mHandler (pps ! i) (fst st1) w))"
  using assms(2-)
proof (induction pps arbitrary: i)
  case Nil
  then show ?case by simp
next
  case (Cons pp pps)
  show ?case
  proof (cases i)
    case 0
    with Cons.prems(3) func_hit [of equal v lv pp s v1 st1 result w] show ?thesis by simp
  next
    case (Suc k)
    with Cons.prems(4) obtain v' st' where
      m: "matchPattern equal v lv (mPattern pp) 0 (s, []) = Some (False, v', st')" by fastforce
    from match_value_kept(1) [OF m assms(1)] have v': "v' = v" .
    from m v' Cons.prems(1)
    have miss: "matchPatterns_func equal pp v lv (result, s, w) = Some (False, v, result, s, w)"
      by (auto intro: func_miss)
    from Cons.prems Suc have
      "\<forall>pp\<in>set pps. \<forall>a\<in>pat_ids (mPattern pp). s a = Block_init" "k < length pps"
      "matchPattern equal v lv (mPattern (pps ! k)) 0 (s, []) = Some (True, v1, st1)"
      "\<forall>m<k. \<exists>v' st'. matchPattern equal v lv (mPattern (pps ! m)) 0 (s, []) = Some (False, v', st')"
      by auto
    from Cons.IH [OF this] miss Suc show ?thesis by simp
  qed
qed

text \<open>
  On a scrutinee that is an lvalue, or an rvalue that a move leaves unchanged, and on
  fresh cells: if clause \<open>i\<close> matches and every clause before it does not, the driver
  returns the value of clause \<open>i\<close>'s handler, run on the cells as the match bound them,
  and the user's state is the one that handler alone produced. Exactly one handler ran,
  whatever the clauses after \<open>i\<close> would match.
\<close>

lemma ordered_first_match:
  assumes "lv \<or> moved_from v = v"
    and "\<forall>pp\<in>set pps. \<forall>a\<in>pat_ids (mPattern pp). s a = Block_init"
    and "i < length pps"
    and "matchPattern equal v lv (mPattern (pps ! i)) 0 (s, []) = Some (True, v1, st1)"
    and "\<forall>k<i. \<exists>v' st'. matchPattern equal v lv (mPattern (pps ! k)) 0 (s, []) = Some (False, v', st')"
  shows "matchPatterns equal isVoid v lv pps result0 s w =
           Some (Inr (fst (mHandler (pps ! i) (fst st1) w)), fst st1,
                 snd (mHandler (pps ! i) (fst st1) w))"
proof -
  from assms(3) have "pps \<noteq> []" by auto
  with fold_first_hit [OF assms, of result0 w] show ?thesis
    by (simp add: matchPatterns_def)
qed

text \<open>
  C2. Ordered first-match fails on an rvalue scrutinee that a move changes.
  \<open>func\<close> casts the one object \<open>value\<close> to an rvalue for every clause
  (\<open>std::forward<Value>(value)\<close>), so a clause that binds an identifier and then fails
  has moved the scrutinee into the cell, and the clauses after it see what the move
  left. In
  \<open>matchPatterns(std::vector<int>{1, 2, 3}, pattern | x | when(...) = ..., pattern | ds(1, 2, 3) = ..., pattern | _ = ...)\<close>,
  with a guard that is false, the first clause binds \<open>x\<close>, fails on its guard and leaves
  the vector empty (first equation); the pattern of the second clause matches the vector
  \<open>{1, 2, 3}\<close> (second equation) but not the empty vector (third equation); the driver
  runs the handler of the third clause (fourth equation).
\<close>

theorem first_match_lost_after_move:
  "matchPattern IdTraits_equal (VRange [VInt 1, VInt 2, VInt 3]) False
     (PostCheck (Ident (PtrBlock 0)) (\<lambda>s. False)) 0 (\<lambda>_. Block_init, [])
     = Some (False, VRange [], (\<lambda>_. Block_init, [])) \<and>
   matchPattern IdTraits_equal (VRange [VInt 1, VInt 2, VInt 3]) False
     (Ds [Lit (VInt 1), Lit (VInt 2), Lit (VInt 3)]) 0 (\<lambda>_. Block_init, [])
     = Some (True, VRange [VInt 1, VInt 2, VInt 3], (\<lambda>_. Block_init, [])) \<and>
   matchPattern IdTraits_equal (VRange []) False
     (Ds [Lit (VInt 1), Lit (VInt 2), Lit (VInt 3)]) 0 (\<lambda>_. Block_init, [])
     = Some (False, VRange [], (\<lambda>_. Block_init, [])) \<and>
   matchPatterns IdTraits_equal False (VRange [VInt 1, VInt 2, VInt 3]) False
     [\<lparr>mPattern = PostCheck (Ident (PtrBlock 0)) (\<lambda>s. False), mHandler = (\<lambda>s w. (1 :: int, w))\<rparr>,
      \<lparr>mPattern = Ds [Lit (VInt 1), Lit (VInt 2), Lit (VInt 3)], mHandler = (\<lambda>s w. (2, w))\<rparr>,
      \<lparr>mPattern = Wildcard, mHandler = (\<lambda>s w. (3, w))\<rparr>]
     0 (\<lambda>_. Block_init) ()
     = Some (Inr 3, \<lambda>_. Block_init, ())"
  by (simp add: eval_simps fun_eq_iff)

text \<open>
  C4, as the code has it. In the expression form, when the scrutinee is an lvalue, or an
  rvalue that a move leaves unchanged, and no clause matches it, the driver throws
  \<open>std::logic_error\<close> with the message \<open>Error: no patterns got matched!\<close>; the cells
  and the user's state are as before the call.
\<close>

theorem no_match_signalled:
  assumes "pps \<noteq> []"
    and "lv \<or> moved_from v = v"
    and "\<forall>pp\<in>set pps. \<forall>a\<in>pat_ids (mPattern pp). s a = Block_init"
    and "\<forall>pp\<in>set pps. \<exists>v' st'. matchPattern equal v lv (mPattern pp) 0 (s, []) = Some (False, v', st')"
  shows "matchPatterns equal False v lv pps result0 s w =
           Some (Inl (logic_error ''Error: no patterns got matched!''), s, w)"
  using assms(1) fold_all_miss [OF assms(2,3,4), of result0 w]
  by (simp add: matchPatterns_def)

theorem no_match_signalled_witness:
  "matchPatterns IdTraits_equal False (VInt 99) False
     [\<lparr>mPattern = Lit (VInt 1), mHandler = (\<lambda>s w. (CHR ''a'', w))\<rparr>,
      \<lparr>mPattern = Lit (VInt 2), mHandler = (\<lambda>s w. (CHR ''b'', w))\<rparr>] (CHR 0x00) (\<lambda>_. Block_init) ()
   = Some (Inl (logic_error ''Error: no patterns got matched!''), \<lambda>_. Block_init, ())"
proof -
  let ?pps = "[\<lparr>mPattern = Lit (VInt 1), mHandler = (\<lambda>s (w :: unit). (CHR ''a'', w))\<rparr>,
      \<lparr>mPattern = Lit (VInt 2), mHandler = (\<lambda>s w. (CHR ''b'', w))\<rparr>]"
  let ?s = "\<lambda>_::addr. Block_init"
  have ne: "?pps \<noteq> []" by simp
  have kept: "False \<or> moved_from (VInt 99) = VInt 99" by simp
  have fresh: "\<forall>pp\<in>set ?pps. \<forall>a\<in>pat_ids (mPattern pp). ?s a = Block_init" by simp
  have miss: "\<forall>pp\<in>set ?pps. \<exists>v' st'. matchPattern IdTraits_equal (VInt 99) False (mPattern pp) 0 (?s, [])
             = Some (False, v', st')"
    by (simp add: eval_simps)
  from no_match_signalled [OF ne kept fresh miss, of "CHR 0x00" "()"] show ?thesis .
qed

text \<open>
  C4, as the claim states it: the message is not \<open>no patterns got matched\<close>. The match
  of 99 against the clauses for 1 and 2 is scenario (f) of the specification.
\<close>

theorem no_match_message_counterexample:
  "matchPatterns IdTraits_equal False (VInt 99) False
     [\<lparr>mPattern = Lit (VInt 1), mHandler = (\<lambda>s w. (CHR ''a'', w))\<rparr>,
      \<lparr>mPattern = Lit (VInt 2), mHandler = (\<lambda>s w. (CHR ''b'', w))\<rparr>] (CHR 0x00) (\<lambda>_. Block_init) ()
   \<noteq> Some (Inl (logic_error ''no patterns got matched''), \<lambda>_. Block_init, ())"
  by (simp add: eval_simps)

text \<open>
  On an rvalue that a move changes, a failed clause may have moved the scrutinee away, as
  under C2, and a later clause can match what is left. Neither pattern here matches the
  vector \<open>{1, 2, 3}\<close> (first and second equation), and the driver returns the value of
  the second clause, whose predicate holds of the empty vector.
\<close>

lemma no_match_missed_after_move:
  "matchPattern IdTraits_equal (VRange [VInt 1, VInt 2, VInt 3]) False
     (PostCheck (Ident (PtrBlock 0)) (\<lambda>s. False)) 0 (\<lambda>_. Block_init, [])
     = Some (False, VRange [], (\<lambda>_. Block_init, [])) \<and>
   matchPattern IdTraits_equal (VRange [VInt 1, VInt 2, VInt 3]) False
     (Meet (\<lambda>v. v = VRange [])) 0 (\<lambda>_. Block_init, [])
     = Some (False, VRange [VInt 1, VInt 2, VInt 3], (\<lambda>_. Block_init, [])) \<and>
   matchPatterns IdTraits_equal False (VRange [VInt 1, VInt 2, VInt 3]) False
     [\<lparr>mPattern = PostCheck (Ident (PtrBlock 0)) (\<lambda>s. False), mHandler = (\<lambda>s w. (1 :: int, w))\<rparr>,
      \<lparr>mPattern = Meet (\<lambda>v. v = VRange []), mHandler = (\<lambda>s w. (2, w))\<rparr>]
     0 (\<lambda>_. Block_init) ()
     = Some (Inr 2, \<lambda>_. Block_init, ())"
  by (simp add: eval_simps fun_eq_iff)

text \<open>
  C1. Capture hygiene fails after a successful clause: \<open>matchPatterns\<close> calls
  \<open>processId\<close> on the \<open>PatternPair\<close>, not on its pattern, which resets nothing. Here
  \<open>Id<int> x; match(5)(pattern | x = ...)\<close> returns with \<open>x\<close> still holding 5, whether
  the scrutinee is passed as an lvalue or as an rvalue.
\<close>

theorem capture_left_after_success:
  "(\<exists>s'. matchPatterns IdTraits_equal False (VInt 5) True
          [\<lparr>mPattern = Ident (PtrBlock 0), mHandler = (\<lambda>s w. (1 :: int, w))\<rparr>] 0
          (\<lambda>_. Block_init) ()
        = Some (Inr 1, s', ()) \<and>
        Id_hasValue s' (OwnBlock 0) \<and> Id_value s' (OwnBlock 0) = Inr (VInt 5)) \<and>
   (\<exists>s'. matchPatterns IdTraits_equal False (VInt 5) False
          [\<lparr>mPattern = Ident (PtrBlock 0), mHandler = (\<lambda>s w. (1 :: int, w))\<rparr>] 0
          (\<lambda>_. Block_init) ()
        = Some (Inr 1, s', ()) \<and>
        Id_hasValue s' (OwnBlock 0) \<and> Id_value s' (OwnBlock 0) = Inr (VInt 5))"
  by (simp add: eval_simps)

section \<open>Destructuring\<close>






text \<open>
  With one splice among its sub-patterns, the overload for iterables tests the length
  first and fails below \<open>n - 1\<close>.
\<close>

lemma ds_splice_short_range_fails:
  assumes "nbOooOrBinderV ps = 1" and "length xs < length ps - 1"
  shows "matchPatternImpl equal (VRange xs) lv (Ds ps) depth st = Some (False, VRange xs, st)"
  using assms by (simp add: DsRange_matchPatternImpl.simps)

text \<open>
  C3. The Ds-splice length law fails on a tuple that is too short: the overload for
  tuple-like values has no length test. It starts the sub-patterns after the splice at
  element \<open>valLen - patLen + idxOoo + 1\<close>, computed in \<open>size_t\<close>; with \<open>L < n - 1\<close> the
  difference wraps, and where the sum comes back into range these sub-patterns are
  matched against elements that the sub-patterns before the splice have matched already.
  \<open>ds(1, ooo, 1)\<close> against \<open>std::make_tuple(1)\<close> has \<open>L = 1 < n - 1 = 2\<close>; both literals
  are matched against element 0, and the match succeeds, for the tuple passed as an
  lvalue and as an rvalue (second and third conjunct). Against the vector \<open>{1}\<close> the
  same pattern fails (fourth conjunct).
\<close>

theorem ds_splice_overlap_on_short_tuple:
  "length [VInt 1] < length [Lit (VInt 1), Ooo, Lit (VInt 1)] - 1 \<and>
   matchPattern IdTraits_equal (VTuple [VInt 1]) True (Ds [Lit (VInt 1), Ooo, Lit (VInt 1)]) 0
     (\<lambda>_. Block_init, []) = Some (True, VTuple [VInt 1], (\<lambda>_. Block_init, [])) \<and>
   matchPattern IdTraits_equal (VTuple [VInt 1]) False (Ds [Lit (VInt 1), Ooo, Lit (VInt 1)]) 0
     (\<lambda>_. Block_init, []) = Some (True, VTuple [VInt 1], (\<lambda>_. Block_init, [])) \<and>
   matchPattern IdTraits_equal (VRange [VInt 1]) True (Ds [Lit (VInt 1), Ooo, Lit (VInt 1)]) 0
     (\<lambda>_. Block_init, []) = Some (False, VRange [VInt 1], (\<lambda>_. Block_init, []))"
  by (simp add: eval_simps)

end
